theory Spec2Isabelle
  imports Main "HOL-Library.Multiset" "HOL-Library.Product_Lexorder" "HOL-Library.Sublist"
begin

section \<open>Data model\<close>

text \<open>
  Identities are MongoDB ObjectIds; only their equality matters, so they are numbers.
  Two ids are equal exactly when their hexadecimal strings are, which is what
  \<^verbatim>\<open>_id.toString() === _id.toString()\<close> and \<^verbatim>\<open>id.equals(other)\<close> compare.
\<close>

type_synonym user_id = nat
type_synonym post_id = nat

record comment =
  comment_user :: user_id
  comment_text :: string

text \<open>
  The post schema of the Post model. \<open>pid\<close> is the field \<^verbatim>\<open>_id\<close>; \<open>createdAt\<close> is the
  timestamp in milliseconds, as \<^verbatim>\<open>Date.now()\<close> counts them. The schema gives \<open>likes\<close> and
  \<open>comments\<close> the default \<^verbatim>\<open>[]\<close>, so both are always lists.
\<close>

record post =
  pid :: post_id
  author :: user_id
  content :: string
  likes :: "user_id list"
  comments :: "comment list"
  isActive :: bool
  isPinned :: bool
  createdAt :: int

datatype user_type = Artist | Fan

record user =
  uid :: user_id
  following :: "user_id list"
  userType :: user_type
  isVerified :: bool

text \<open>
  What \<^verbatim>\<open>post.toObject()\<close> gives (the schema sets \<^verbatim>\<open>toObject: { virtuals: true }\<close>): the
  document with its two virtual counts, and the field \<^verbatim>\<open>isLikedByUser\<close> the routes attach.
  \<open>None\<close> is a field that was never set.
\<close>

record post_obj =
  doc :: post
  likesCount :: nat
  commentsCount :: nat
  isLikedByUser :: "bool option"

text \<open>The two failures the feed routes answer with: status 404 and status 500.\<close>

datatype error = NotFound | InternalError

datatype feed_meta =
  FollowingMeta nat nat
  | ForYouMeta nat nat nat nat
  | DiscoverMeta

record feed_result =
  r_posts :: "post_obj list"
  r_page :: int
  r_limit :: int
  r_hasNext :: bool
  r_meta :: feed_meta

section \<open>Post methods\<close>

text \<open>
  \<^verbatim>\<open>like\<close>, \<^verbatim>\<open>unlike\<close> and \<^verbatim>\<open>isLikedBy\<close> of the post schema. Each ends in \<^verbatim>\<open>this.save()\<close>,
  which stores the document; the model returns the changed document. The guard
  \<^verbatim>\<open>!this.likes\<close> never fires on a list. \<^verbatim>\<open>!userId\<close> is the missing viewer.
\<close>

definition like :: "post \<Rightarrow> user_id \<Rightarrow> post" where
  "like p userId =
     (if \<not> list_ex (\<lambda>i. i = userId) (likes p)
      then p\<lparr>likes := likes p @ [userId]\<rparr>
      else p)"

definition unlike :: "post \<Rightarrow> user_id \<Rightarrow> post" where
  "unlike p userId = p\<lparr>likes := filter (\<lambda>i. \<not> i = userId) (likes p)\<rparr>"

fun isLikedBy :: "post \<Rightarrow> user_id option \<Rightarrow> bool" where
  "isLikedBy p None = False"
| "isLikedBy p (Some userId) = list_ex (\<lambda>i. i = userId) (likes p)"

section \<open>The store\<close>

text \<open>
  A collection is the list of its documents. \<^verbatim>\<open>find\<close> keeps the documents that match,
  in the collection's order; \<^verbatim>\<open>sort\<close> orders them by the given keys (the store leaves
  the order of ties open; the model keeps them in the collection's order);
  \<^verbatim>\<open>skip\<close> refuses a negative count, which the route's \<^verbatim>\<open>catch\<close> turns into status 500;
  \<^verbatim>\<open>limit(0)\<close> is no limit, and a negative limit counts as its magnitude.
\<close>

definition db_find :: "('a \<Rightarrow> bool) \<Rightarrow> 'a list \<Rightarrow> 'a list" where
  "db_find q coll = filter q coll"

definition sort_createdAt_desc :: "post list \<Rightarrow> post list" where
  "sort_createdAt_desc ps = sort_key (\<lambda>p. - createdAt p) ps"

definition pinned_key :: "post \<Rightarrow> nat \<times> int" where
  "pinned_key p = (if isPinned p then 0 else 1, - createdAt p)"

definition sort_isPinned_createdAt_desc :: "post list \<Rightarrow> post list" where
  "sort_isPinned_createdAt_desc ps = sort_key pinned_key ps"

definition db_skip :: "int \<Rightarrow> 'a list \<Rightarrow> error + 'a list" where
  "db_skip n xs = (if n < 0 then Inl InternalError else Inr (drop (nat n) xs))"

definition db_limit :: "int \<Rightarrow> 'a list \<Rightarrow> 'a list" where
  "db_limit n xs = (if n = 0 then xs else take (nat \<bar>n\<bar>) xs)"

definition findById :: "user list \<Rightarrow> user_id \<Rightarrow> user option" where
  "findById users userId = find (\<lambda>u. uid u = userId) users"

section \<open>Request parameters and JavaScript arrays\<close>

text \<open>
  \<^verbatim>\<open>parseInt(req.query.page) || 1\<close>: \<open>None\<close> is \<^verbatim>\<open>NaN\<close>; \<^verbatim>\<open>NaN\<close> and \<^verbatim>\<open>0\<close> are falsy and
  give the default.
\<close>

definition query_int :: "int option \<Rightarrow> int \<Rightarrow> int" where
  "query_int q d = (case q of None \<Rightarrow> d | Some n \<Rightarrow> if n = 0 then d else n)"

definition day_ms :: int where
  "day_ms = 24 * 60 * 60 * 1000"

text \<open>
  \<^verbatim>\<open>Math.floor(limit * 0.4)\<close> and \<^verbatim>\<open>Math.floor(limit * 0.3)\<close>, in exact arithmetic:
  \<open>floor_tenths limit 4\<close> and \<open>floor_tenths limit 3\<close>. The double-precision product
  has the same integer part for the page sizes of practice; the properties proved of the
  for-you feed hold whatever the two quotas are.
\<close>

definition floor_tenths :: "int \<Rightarrow> int \<Rightarrow> int" where
  "floor_tenths limit k = (limit * k) div 10"

text \<open>\<^verbatim>\<open>Array.prototype.slice(start, end)\<close>, negative indices counting from the end.\<close>

definition js_slice :: "int \<Rightarrow> int \<Rightarrow> 'a list \<Rightarrow> 'a list" where
  "js_slice start fin xs =
     (let len = int (length xs);
          k = (if start < 0 then max (len + start) 0 else min start len);
          final = (if fin < 0 then max (len + fin) 0 else min fin len)
      in take (nat (final - k)) (drop (nat k) xs))"

text \<open>\<^verbatim>\<open>Array.prototype.findIndex\<close>: the first index whose element passes, or \<open>-1\<close>.\<close>

fun findIndex :: "('a \<Rightarrow> bool) \<Rightarrow> 'a list \<Rightarrow> int" where
  "findIndex P [] = - 1"
| "findIndex P (x # xs) =
     (if P x then 0
      else (let r = findIndex P xs in if r < 0 then - 1 else r + 1))"

text \<open>\<^verbatim>\<open>self.filter((x, index, self) => ...)\<close>: the callback sees the element, its index and the array.\<close>

definition filter_indexed :: "('a \<Rightarrow> nat \<Rightarrow> 'a list \<Rightarrow> bool) \<Rightarrow> 'a list \<Rightarrow> 'a list" where
  "filter_indexed f self =
     map fst (filter (\<lambda>(x, index). f x index self) (zip self [0..<length self]))"

section \<open>Feed routes\<close>

text \<open>
  \<^verbatim>\<open>uniquePosts\<close> of the for-you route: a post stays when its index is the first index
  of a post with its id.
\<close>

definition uniquePosts :: "post list \<Rightarrow> post list" where
  "uniquePosts algorithmPosts =
     filter_indexed
       (\<lambda>post index self. int index = findIndex (\<lambda>p. pid p = pid post) self)
       algorithmPosts"

text \<open>
  First-seen deduplication as the design states it: the first post is kept, every later
  post with its identity is removed, and so on along the sequence.
\<close>

fun dedup_first_seen :: "post list \<Rightarrow> post list" where
  "dedup_first_seen [] = []"
| "dedup_first_seen (x # xs) = x # dedup_first_seen (filter (\<lambda>y. pid y \<noteq> pid x) xs)"

text \<open>
  \<^verbatim>\<open>post.toObject()\<close> may throw; \<open>conv\<close> says for which documents it succeeds. A thrown
  error is caught by the \<^verbatim>\<open>try\<close> around it and the callback returns \<^verbatim>\<open>null\<close>.
\<close>

definition toObject :: "(post \<Rightarrow> bool) \<Rightarrow> post \<Rightarrow> post_obj option" where
  "toObject conv p =
     (if conv p
      then Some \<lparr>doc = p, likesCount = length (likes p), commentsCount = length (comments p),
                 isLikedByUser = None\<rparr>
      else None)"

text \<open>
  The callback of \<^verbatim>\<open>posts.map\<close> in the following and for-you routes. The array element
  is \<open>None\<close> when it is \<^verbatim>\<open>null\<close> or has no \<^verbatim>\<open>toObject\<close> function.
\<close>

definition withUserData :: "(post \<Rightarrow> bool) \<Rightarrow> user_id \<Rightarrow> post option \<Rightarrow> post_obj option" where
  "withUserData conv userId e =
     (case e of
        None \<Rightarrow> None
      | Some p \<Rightarrow>
          (case toObject conv p of
             None \<Rightarrow> None
           | Some postObj \<Rightarrow> Some (postObj\<lparr>isLikedByUser := Some (isLikedBy p (Some userId))\<rparr>)))"

text \<open>The callback of the discover route: the field is set only \<^verbatim>\<open>if (req.user)\<close>.\<close>

definition withOptionalUserData ::
    "(post \<Rightarrow> bool) \<Rightarrow> user_id option \<Rightarrow> post option \<Rightarrow> post_obj option" where
  "withOptionalUserData conv reqUser e =
     (case e of
        None \<Rightarrow> None
      | Some p \<Rightarrow>
          (case toObject conv p of
             None \<Rightarrow> None
           | Some postObj \<Rightarrow>
               (case reqUser of
                  None \<Rightarrow> Some postObj
                | Some userId \<Rightarrow>
                    Some (postObj\<lparr>isLikedByUser := Some (isLikedBy p (Some userId))\<rparr>))))"

text \<open>\<^verbatim>\<open>posts.map(f).filter(post => post !== null)\<close>.\<close>

definition map_non_null :: "('a \<Rightarrow> 'b option) \<Rightarrow> 'a list \<Rightarrow> 'b list" where
  "map_non_null f xs = map the (filter (\<lambda>r. r \<noteq> None) (map f xs))"

text \<open>
  \<^verbatim>\<open>GET /feed/following\<close>, after the two \<^verbatim>\<open>parseInt\<close> lines. \<open>users\<close> and \<open>store\<close> are the
  two collections, \<open>userId\<close> is \<^verbatim>\<open>req.user.userId\<close>.
\<close>

definition following_query :: "user \<Rightarrow> post list \<Rightarrow> post list" where
  "following_query usr store =
     (let followingIds = (if length (following usr) > 0 then following usr else [])
      in sort_isPinned_createdAt_desc
           (if length followingIds = 0
            then db_find (\<lambda>p. author p = uid usr \<and> isActive p) store
            else db_find (\<lambda>p. (author p = uid usr \<or> author p \<in> set followingIds) \<and> isActive p)
                   store))"

text \<open>
  The awaited query of the route: the documents of the requested page. An awaited
  \<^verbatim>\<open>find\<close> is an array of documents, so the guard \<^verbatim>\<open>!Array.isArray(posts)\<close> never fires.
\<close>

definition following_posts :: "user \<Rightarrow> post list \<Rightarrow> int \<Rightarrow> int \<Rightarrow> error + post list" where
  "following_posts usr store page limit =
     (case db_skip ((page - 1) * limit) (following_query usr store) of
        Inl e \<Rightarrow> Inl e
      | Inr skipped \<Rightarrow> Inr (db_limit limit skipped))"

definition following_feed ::
    "(post \<Rightarrow> bool) \<Rightarrow> user list \<Rightarrow> post list \<Rightarrow> user_id \<Rightarrow> int \<Rightarrow> int \<Rightarrow> error + feed_result" where
  "following_feed conv users store userId page limit =
     (case findById users userId of
        None \<Rightarrow> Inl NotFound
      | Some usr \<Rightarrow>
          (case following_posts usr store page limit of
             Inl e \<Rightarrow> Inl e
           | Inr posts \<Rightarrow>
               (let postsWithUserData = map_non_null (withUserData conv (uid usr)) (map Some posts)
                in Inr \<lparr>r_posts = postsWithUserData, r_page = page, r_limit = limit,
                        r_hasNext = (int (length posts) = limit),
                        r_meta = FollowingMeta (length postsWithUserData)
                                   (length (following usr))\<rparr>)))"

definition get_feed_following ::
    "(post \<Rightarrow> bool) \<Rightarrow> user list \<Rightarrow> post list \<Rightarrow> user_id \<Rightarrow> int option \<Rightarrow> int option
       \<Rightarrow> error + feed_result" where
  "get_feed_following conv users store userId qpage qlimit =
     following_feed conv users store userId (query_int qpage 1) (query_int qlimit 10)"

text \<open>
  \<^verbatim>\<open>GET /feed/for-you\<close>. \<open>now\<close> is \<^verbatim>\<open>Date.now()\<close>; the three reads of the clock in one
  request are taken as one instant.
\<close>

definition excludeIds :: "user \<Rightarrow> user_id list" where
  "excludeIds usr = uid usr # following usr"

definition interactions :: "post \<Rightarrow> int" where
  "interactions p = int (length (likes p)) + int (length (comments p))"

definition recentPopular :: "user \<Rightarrow> post list \<Rightarrow> int \<Rightarrow> int \<Rightarrow> post list" where
  "recentPopular usr store now limit =
     db_limit (floor_tenths limit 4)
       (sort_createdAt_desc
          (db_find (\<lambda>p. author p \<notin> set (excludeIds usr) \<and> isActive p
                        \<and> createdAt p \<ge> now - 14 * day_ms \<and> interactions p \<ge> 1)
             store))"

text \<open>\<^verbatim>\<open>User.find({...}).distinct('_id')\<close>: the ids of the matching users, each once.\<close>

definition verifiedArtistIds :: "user list \<Rightarrow> user \<Rightarrow> user_id list" where
  "verifiedArtistIds users usr =
     remdups (map uid
       (db_find (\<lambda>u. userType u = Artist \<and> isVerified u \<and> uid u \<notin> set (excludeIds usr)) users))"

definition verifiedArtistsPosts :: "user list \<Rightarrow> user \<Rightarrow> post list \<Rightarrow> int \<Rightarrow> int \<Rightarrow> post list" where
  "verifiedArtistsPosts users usr store now limit =
     db_limit (floor_tenths limit 3)
       (sort_createdAt_desc
          (db_find (\<lambda>p. (author p \<notin> set (excludeIds usr)
                           \<and> author p \<in> set (verifiedArtistIds users usr))
                        \<and> isActive p \<and> createdAt p \<ge> now - 21 * day_ms)
             store))"

definition recentDiverse :: "user \<Rightarrow> post list \<Rightarrow> int \<Rightarrow> int \<Rightarrow> post list" where
  "recentDiverse usr store now n =
     db_limit n
       (sort_createdAt_desc
          (db_find (\<lambda>p. author p \<notin> set (excludeIds usr) \<and> isActive p
                        \<and> createdAt p \<ge> now - 7 * day_ms)
             store))"

text \<open>The array \<^verbatim>\<open>algorithmPosts\<close> after the three pushes.\<close>

definition algorithmPosts :: "user list \<Rightarrow> user \<Rightarrow> post list \<Rightarrow> int \<Rightarrow> int \<Rightarrow> post list" where
  "algorithmPosts users usr store now limit =
     (let a1 = recentPopular usr store now limit;
          a2 = (if int (length a1) < limit
                then a1 @ verifiedArtistsPosts users usr store now limit else a1);
          a3 = (if int (length a2) < limit
                then a2 @ recentDiverse usr store now (limit - int (length a2)) else a2)
      in a3)"

text \<open>\<^verbatim>\<open>p.author?.isVerified\<close> on the populated author, which is \<^verbatim>\<open>null\<close> when no user has the id.\<close>

definition author_isVerified :: "user list \<Rightarrow> post \<Rightarrow> bool" where
  "author_isVerified users p =
     (case findById users (author p) of None \<Rightarrow> False | Some a \<Rightarrow> isVerified a)"

text \<open>
  \<open>shuffle\<close> is \<^verbatim>\<open>.sort(() => Math.random() - 0.5)\<close>: what it returns depends on the
  random draws of the request, so the route takes it as a parameter.
\<close>

definition shuffledPosts ::
    "(post list \<Rightarrow> post list) \<Rightarrow> post list \<Rightarrow> int \<Rightarrow> int \<Rightarrow> post list" where
  "shuffledPosts shuffle unique page limit =
     js_slice ((page - 1) * limit) (page * limit) (shuffle unique)"

definition for_you_feed ::
    "(post \<Rightarrow> bool) \<Rightarrow> (post list \<Rightarrow> post list) \<Rightarrow> user list \<Rightarrow> post list \<Rightarrow> user_id \<Rightarrow> int
       \<Rightarrow> int \<Rightarrow> int \<Rightarrow> error + feed_result" where
  "for_you_feed conv shuffle users store userId now page limit =
     (case findById users userId of
        None \<Rightarrow> Inl NotFound
      | Some usr \<Rightarrow>
          (let candidates = algorithmPosts users usr store now limit;
               unique = uniquePosts candidates;
               shuffled = shuffledPosts shuffle unique page limit;
               postsWithUserData =
                 map_non_null (withUserData conv (uid usr)) (map Some shuffled)
           in Inr \<lparr>r_posts = postsWithUserData, r_page = page, r_limit = limit,
                   r_hasNext = (int (length shuffled) = limit),
                   r_meta = ForYouMeta (length postsWithUserData)
                              (length (recentPopular usr store now limit))
                              (length (filter (author_isVerified users) candidates))
                              (length unique)\<rparr>))"

definition get_feed_for_you ::
    "(post \<Rightarrow> bool) \<Rightarrow> (post list \<Rightarrow> post list) \<Rightarrow> user list \<Rightarrow> post list \<Rightarrow> user_id \<Rightarrow> int
       \<Rightarrow> int option \<Rightarrow> int option \<Rightarrow> error + feed_result" where
  "get_feed_for_you conv shuffle users store userId now qpage qlimit =
     for_you_feed conv shuffle users store userId now (query_int qpage 1) (query_int qlimit 10)"

text \<open>
  \<^verbatim>\<open>GET /discover\<close>. \<open>reqUser\<close> is \<^verbatim>\<open>req.user\<close>'s user id, \<open>None\<close> for an anonymous request.
\<close>

definition discover_query :: "post list \<Rightarrow> int \<Rightarrow> post list" where
  "discover_query store now =
     sort_createdAt_desc
       (db_find (\<lambda>p. isActive p \<and> (interactions p \<ge> 1 \<or> createdAt p \<ge> now - 7 * day_ms))
          store)"

definition discover_posts :: "post list \<Rightarrow> int \<Rightarrow> int \<Rightarrow> int \<Rightarrow> error + post list" where
  "discover_posts store now page limit =
     (case db_skip ((page - 1) * limit) (discover_query store now) of
        Inl e \<Rightarrow> Inl e
      | Inr skipped \<Rightarrow> Inr (db_limit limit skipped))"

definition discover_feed ::
    "(post \<Rightarrow> bool) \<Rightarrow> post list \<Rightarrow> user_id option \<Rightarrow> int \<Rightarrow> int \<Rightarrow> int \<Rightarrow> error + feed_result" where
  "discover_feed conv store reqUser now page limit =
     (case discover_posts store now page limit of
        Inl e \<Rightarrow> Inl e
      | Inr posts \<Rightarrow>
          (let postsWithUserData =
                 map_non_null (withOptionalUserData conv reqUser) (map Some posts)
           in Inr \<lparr>r_posts = postsWithUserData, r_page = page, r_limit = limit,
                   r_hasNext = (int (length posts) = limit),
                   r_meta = DiscoverMeta\<rparr>))"

definition get_discover ::
    "(post \<Rightarrow> bool) \<Rightarrow> post list \<Rightarrow> user_id option \<Rightarrow> int \<Rightarrow> int option \<Rightarrow> int option
       \<Rightarrow> error + feed_result" where
  "get_discover conv store reqUser now qpage qlimit =
     discover_feed conv store reqUser now (query_int qpage 1) (query_int qlimit 10)"

text \<open>The posts of a response; a failed request returns none.\<close>

definition returned_posts :: "error + feed_result \<Rightarrow> post_obj list" where
  "returned_posts r = (case r of Inl e \<Rightarrow> [] | Inr res \<Rightarrow> r_posts res)"

section \<open>Notions of the design\<close>

text \<open>
  The order of the following feed: a pinned post never comes after an unpinned one, and
  of two posts with the same pinned flag the later created never comes after the
  earlier created.
\<close>

definition pinned_first :: "post \<Rightarrow> post \<Rightarrow> bool" where
  "pinned_first a b \<longleftrightarrow>
     (isPinned b \<longrightarrow> isPinned a) \<and> (isPinned a = isPinned b \<longrightarrow> createdAt b \<le> createdAt a)"

text \<open>The window of a page: the elements at the indices from (page - 1) * limit up to, not including, page * limit.\<close>

definition window :: "int \<Rightarrow> int \<Rightarrow> 'a list \<Rightarrow> 'a list" where
  "window page limit xs =
     map (nth xs) (filter (\<lambda>i. i < length xs) [nat ((page - 1) * limit)..<nat (page * limit)])"

text \<open>The filter of the discover feed, as the design states it.\<close>

definition discover_includes :: "int \<Rightarrow> post \<Rightarrow> bool" where
  "discover_includes now p \<longleftrightarrow>
     isActive p \<and> (interactions p \<ge> 1 \<or> now - createdAt p \<le> 7 * day_ms)"

text \<open>Documents for the examples: id, author, likes, number of comments, active, pinned, creation time.\<close>

abbreviation mk_post ::
    "post_id \<Rightarrow> user_id \<Rightarrow> user_id list \<Rightarrow> nat \<Rightarrow> bool \<Rightarrow> bool \<Rightarrow> int \<Rightarrow> post" where
  "mk_post i a ls n act pin t \<equiv>
     \<lparr>pid = i, author = a, content = [], likes = ls,
      comments = replicate n \<lparr>comment_user = a, comment_text = []\<rparr>,
      isActive = act, isPinned = pin, createdAt = t\<rparr>"

text \<open>
  A small site: the viewer 1 follows user 2; user 3 is a verified artist; user 4 follows
  nobody. Post 5 is inactive, post 7 is pinned, posts 3 and 8 are old and have no
  interactions.
\<close>

definition ex_now :: int where
  "ex_now = 100 * day_ms"

definition ex_users :: "user list" where
  "ex_users =
     [\<lparr>uid = 1, following = [2], userType = Fan, isVerified = False\<rparr>,
      \<lparr>uid = 2, following = [], userType = Fan, isVerified = False\<rparr>,
      \<lparr>uid = 3, following = [], userType = Artist, isVerified = True\<rparr>,
      \<lparr>uid = 4, following = [], userType = Fan, isVerified = False\<rparr>]"

definition ex_store :: "post list" where
  "ex_store =
     [mk_post 1 1 [] 0 True False (ex_now - 1 * day_ms),
      mk_post 2 2 [1] 0 True False (ex_now - 3 * day_ms),
      mk_post 3 3 [] 0 True False (ex_now - 10 * day_ms),
      mk_post 4 3 [1] 0 True False (ex_now - 2 * day_ms),
      mk_post 5 3 [4] 1 False False (ex_now - 1 * day_ms),
      mk_post 6 4 [] 0 True False (ex_now - 1 * day_ms),
      mk_post 7 1 [] 0 True True (ex_now - 20 * day_ms),
      mk_post 8 4 [] 0 True False (ex_now - 8 * day_ms)]"

text \<open>Posts of user 1 with the given ids, each created at the instant of its id.\<close>

definition ex_many :: "nat list \<Rightarrow> post list" where
  "ex_many ids = map (\<lambda>i. mk_post i 1 [] 0 True False (int i)) ids"

section \<open>Deduplication\<close>

lemma findIndex_ge: "- 1 \<le> findIndex P xs"
  by (induction xs) (auto simp: Let_def)

lemma findIndex_neg_iff: "findIndex P xs < 0 \<longleftrightarrow> (\<forall>x\<in>set xs. \<not> P x)"
  using findIndex_ge [of P] by (induction xs) (auto simp: Let_def)

lemma findIndex_append_hit:
  "P x \<Longrightarrow> (findIndex P (pre @ x # xs) = int (length pre)) \<longleftrightarrow> (\<forall>y\<in>set pre. \<not> P y)"
proof (induction pre)
  case Nil
  then show ?case by simp
next
  case (Cons a pre)
  have "findIndex P (pre @ x # xs) \<ge> 0"
    using Cons.prems findIndex_neg_iff [of P "pre @ x # xs"] by fastforce
  with Cons show ?case by (auto simp: Let_def)
qed

lemma unique_aux:
  "map fst (filter (\<lambda>(x, i). int i = findIndex (\<lambda>p. pid p = pid x) (pre @ xs))
              (zip xs [length pre..<length pre + length xs]))
   = dedup_first_seen (filter (\<lambda>y. pid y \<notin> pid ` set pre) xs)"
proof (induction xs arbitrary: pre)
  case Nil
  then show ?case by simp
next
  case (Cons x xs)
  have up: "[length pre..<length pre + length (x # xs)]
            = length pre # [length (pre @ [x])..<length (pre @ [x]) + length xs]"
    by (simp add: upt_rec)
  have hd: "(int (length pre) = findIndex (\<lambda>p. pid p = pid x) (pre @ x # xs))
            \<longleftrightarrow> pid x \<notin> pid ` set pre"
    using findIndex_append_hit [of "\<lambda>p. pid p = pid x" x pre xs] by (simp add: image_iff) metis
  have flt: "filter (\<lambda>y. pid y \<noteq> pid x) (filter (\<lambda>y. pid y \<notin> pid ` set pre) xs)
             = filter (\<lambda>y. pid y \<notin> pid ` set (pre @ [x])) xs"
    by (auto intro: filter_cong)
  have same: "pid x \<in> pid ` set pre \<Longrightarrow>
              filter (\<lambda>y. pid y \<notin> pid ` set (pre @ [x])) xs = filter (\<lambda>y. pid y \<notin> pid ` set pre) xs"
    by (auto intro: filter_cong)
  show ?case
    using Cons.IH [of "pre @ [x]"] hd flt same
    by (simp only: up) (auto)
qed

lemma uniquePosts_dedup: "uniquePosts xs = dedup_first_seen xs"
  using unique_aux [of "[]" xs] by (simp add: uniquePosts_def filter_indexed_def)

lemma dedup_set: "set (dedup_first_seen xs) \<subseteq> set xs"
  by (induction xs rule: dedup_first_seen.induct) auto

lemma dedup_ids: "pid ` set (dedup_first_seen xs) = pid ` set xs"
  by (induction xs rule: dedup_first_seen.induct) auto

lemma dedup_distinct: "distinct (map pid (dedup_first_seen xs))"
proof (induction xs rule: dedup_first_seen.induct)
  case 1
  then show ?case by simp
next
  case (2 x xs)
  have "pid x \<notin> pid ` set (dedup_first_seen (filter (\<lambda>y. pid y \<noteq> pid x) xs))"
    using dedup_set [of "filter (\<lambda>y. pid y \<noteq> pid x) xs"] by auto
  with 2 show ?case by simp
qed

lemma find_filter_weaker:
  "(\<And>x. P x \<Longrightarrow> Q x) \<Longrightarrow> find P (filter Q xs) = find P xs"
  by (induction xs) auto

lemma dedup_first: "p \<in> set (dedup_first_seen xs) \<Longrightarrow> find (\<lambda>q. pid q = pid p) xs = Some p"
proof (induction xs rule: dedup_first_seen.induct)
  case 1
  then show ?case by simp
next
  case (2 x xs)
  show ?case
  proof (cases "p = x")
    case True
    then show ?thesis by simp
  next
    case False
    with 2 have mem: "p \<in> set (dedup_first_seen (filter (\<lambda>y. pid y \<noteq> pid x) xs))" by simp
    then have ne: "pid p \<noteq> pid x"
      using dedup_set [of "filter (\<lambda>y. pid y \<noteq> pid x) xs"] by auto
    have "find (\<lambda>q. pid q = pid p) (filter (\<lambda>y. pid y \<noteq> pid x) xs) = Some p"
      using 2 mem by simp
    moreover have "find (\<lambda>q. pid q = pid p) (filter (\<lambda>y. pid y \<noteq> pid x) xs)
                   = find (\<lambda>q. pid q = pid p) xs"
      using ne by (intro find_filter_weaker) auto
    ultimately show ?thesis using ne by auto
  qed
qed

lemma dedup_subseq: "subseq (dedup_first_seen xs) xs"
proof (induction xs rule: dedup_first_seen.induct)
  case 1
  then show ?case by simp
next
  case (2 x xs)
  have "subseq (filter (\<lambda>y. pid y \<noteq> pid x) xs) xs" by simp
  with 2 have "subseq (dedup_first_seen (filter (\<lambda>y. pid y \<noteq> pid x) xs)) xs"
    using subseq_order.order_trans by blast
  then show ?case by simp
qed

lemma count_distinct_key:
  "distinct (map f ys) \<Longrightarrow> length (filter (\<lambda>p. f p = i) ys) = (if i \<in> f ` set ys then 1 else 0)"
  by (induction ys) auto

text \<open>
  Claim C3. For the concatenation of the three candidate pools, whatever identities
  repeat in it, the deduplicated sequence holds every identity of the concatenation
  exactly once; it is the first-seen deduplication of the concatenation: each post kept
  is the first post of the concatenation with its identity, and the kept posts stand in
  the order they have in the concatenation.
\<close>

theorem uniquePosts_first_seen:
  "uniquePosts (a @ b @ c) = dedup_first_seen (a @ b @ c)
   \<and> distinct (map pid (uniquePosts (a @ b @ c)))
   \<and> pid ` set (uniquePosts (a @ b @ c)) = pid ` set (a @ b @ c)
   \<and> (\<forall>p \<in> set (a @ b @ c).
         length (filter (\<lambda>q. pid q = pid p) (uniquePosts (a @ b @ c))) = 1)
   \<and> (\<forall>p \<in> set (uniquePosts (a @ b @ c)). find (\<lambda>q. pid q = pid p) (a @ b @ c) = Some p)
   \<and> subseq (uniquePosts (a @ b @ c)) (a @ b @ c)"
proof -
  let ?xs = "a @ b @ c"
  have eq: "uniquePosts ?xs = dedup_first_seen ?xs"
    by (rule uniquePosts_dedup)
  have d: "distinct (map pid (uniquePosts ?xs))"
    unfolding eq by (rule dedup_distinct)
  have ids: "pid ` set (uniquePosts ?xs) = pid ` set ?xs"
    unfolding eq by (rule dedup_ids)
  have once: "length (filter (\<lambda>q. pid q = pid p) (uniquePosts ?xs)) = 1" if "p \<in> set ?xs" for p
  proof -
    from that have "pid p \<in> pid ` set (uniquePosts ?xs)"
      unfolding ids by (rule imageI)
    then show ?thesis
      using count_distinct_key [OF d, of "pid p"] by simp
  qed
  have first: "find (\<lambda>q. pid q = pid p) ?xs = Some p" if "p \<in> set (uniquePosts ?xs)" for p
    using that unfolding eq by (rule dedup_first)
  have sub: "subseq (uniquePosts ?xs) ?xs"
    unfolding eq by (rule dedup_subseq)
  from eq d ids once first sub show ?thesis by blast
qed

theorem uniquePosts_first_seen_witness:
  "(let a = [mk_post 1 7 [] 0 True False 50, mk_post 2 8 [] 0 True False 40];
        b = [mk_post 2 8 [9] 0 True False 40];
        c = [mk_post 3 9 [] 0 True False 30, mk_post 1 7 [] 0 True False 50]
    in mk_post 2 8 [9] 0 True False 40 \<in> set (a @ b @ c)
       \<and> length (filter (\<lambda>q. pid q = 2) (uniquePosts (a @ b @ c))) = 1
       \<and> mk_post 2 8 [] 0 True False 40 \<in> set (uniquePosts (a @ b @ c))
       \<and> find (\<lambda>q. pid q = 2) (a @ b @ c) = Some (mk_post 2 8 [] 0 True False 40)
       \<and> uniquePosts (a @ b @ c)
           = [mk_post 1 7 [] 0 True False 50, mk_post 2 8 [] 0 True False 40,
              mk_post 3 9 [] 0 True False 30])"
  using uniquePosts_first_seen
    [of "[mk_post 1 7 [] 0 True False 50, mk_post 2 8 [] 0 True False 40]"
        "[mk_post 2 8 [9] 0 True False 40]"
        "[mk_post 3 9 [] 0 True False 30, mk_post 1 7 [] 0 True False 50]"]
  by simp

section \<open>What the queries and the routes return\<close>

lemma set_db_limit: "set (db_limit n xs) \<subseteq> set xs"
  by (auto simp: db_limit_def dest: in_set_takeD)

lemma db_limit_pos: "0 < n \<Longrightarrow> db_limit n xs = take (nat n) xs"
  by (simp add: db_limit_def)

lemma db_skip_nonneg: "0 \<le> n \<Longrightarrow> db_skip n xs = Inr (drop (nat n) xs)"
  by (simp add: db_skip_def)

lemma set_js_slice: "set (js_slice s f xs) \<subseteq> set xs"
  by (auto simp: js_slice_def Let_def dest!: in_set_takeD in_set_dropD)

lemma docs_withUserData:
  "map doc (map_non_null (withUserData conv u) es) = filter conv (map the (filter (\<lambda>e. e \<noteq> None) es))"
  by (induction es)
     (auto simp: map_non_null_def withUserData_def toObject_def split: option.splits)

lemma docs_withOptionalUserData:
  "map doc (map_non_null (withOptionalUserData conv r) es)
   = filter conv (map the (filter (\<lambda>e. e \<noteq> None) es))"
  by (induction es)
     (auto simp: map_non_null_def withOptionalUserData_def toObject_def split: option.splits)

lemma non_null_Some: "map the (filter (\<lambda>e. e \<noteq> None) (map Some ps)) = ps"
  by (induction ps) auto

lemma docs_following: "map doc (map_non_null (withUserData conv u) (map Some ps)) = filter conv ps"
  by (simp add: docs_withUserData non_null_Some)

lemma docs_discover:
  "map doc (map_non_null (withOptionalUserData conv r) (map Some ps)) = filter conv ps"
  by (simp add: docs_withOptionalUserData non_null_Some)

lemma findById_uid: "findById users userId = Some usr \<Longrightarrow> uid usr = userId"
  by (auto simp: findById_def find_Some_iff)

lemma set_following_query:
  "set (following_query usr store)
   = {p \<in> set store. isActive p \<and> (author p = uid usr \<or> author p \<in> set (following usr))}"
  by (auto simp: following_query_def sort_isPinned_createdAt_desc_def db_find_def Let_def)

lemma set_following_posts:
  "following_posts usr store page limit = Inr ps \<Longrightarrow> set ps \<subseteq> set (following_query usr store)"
  using set_db_limit
  by (fastforce simp: following_posts_def db_skip_def split: if_splits dest: in_set_dropD)

lemma set_discover_query:
  "set (discover_query store now)
   = {p \<in> set store. isActive p \<and> (interactions p \<ge> 1 \<or> createdAt p \<ge> now - 7 * day_ms)}"
  by (auto simp: discover_query_def sort_createdAt_desc_def db_find_def)

lemma set_discover_posts:
  "discover_posts store now page limit = Inr ps \<Longrightarrow> set ps \<subseteq> set (discover_query store now)"
  using set_db_limit
  by (fastforce simp: discover_posts_def db_skip_def split: if_splits dest: in_set_dropD)

lemma docs_following_feed:
  "doc ` set (returned_posts (following_feed conv users store userId page limit))
   \<subseteq> (case findById users userId of None \<Rightarrow> {} | Some usr \<Rightarrow> set (following_query usr store))"
proof (cases "findById users userId")
  case None
  then show ?thesis by (simp add: following_feed_def returned_posts_def)
next
  case (Some usr)
  show ?thesis
  proof (cases "following_posts usr store page limit")
    case (Inl e)
    with Some show ?thesis by (simp add: following_feed_def returned_posts_def)
  next
    case (Inr ps)
    have "doc ` set (map_non_null (withUserData conv (uid usr)) (map Some ps)) = set (filter conv ps)"
      using docs_following [of conv "uid usr" ps] by (metis set_map)
    with Some Inr set_following_posts [OF Inr] show ?thesis
      by (auto simp: following_feed_def returned_posts_def Let_def)
  qed
qed

lemma docs_discover_feed:
  "doc ` set (returned_posts (discover_feed conv store reqUser now page limit))
   \<subseteq> set (discover_query store now)"
proof (cases "discover_posts store now page limit")
  case (Inl e)
  then show ?thesis by (simp add: discover_feed_def returned_posts_def)
next
  case (Inr ps)
  have "doc ` set (map_non_null (withOptionalUserData conv reqUser) (map Some ps))
        = set (filter conv ps)"
    using docs_discover [of conv reqUser ps] by (metis set_map)
  with Inr set_discover_posts [OF Inr] show ?thesis
    by (auto simp: discover_feed_def returned_posts_def Let_def)
qed

lemma set_recentPopular:
  "set (recentPopular usr store now limit)
   \<subseteq> {p \<in> set store. author p \<notin> set (excludeIds usr) \<and> isActive p}"
  using set_db_limit by (fastforce simp: recentPopular_def sort_createdAt_desc_def db_find_def)

lemma set_verifiedArtistsPosts:
  "set (verifiedArtistsPosts users usr store now limit)
   \<subseteq> {p \<in> set store. author p \<notin> set (excludeIds usr) \<and> isActive p}"
  using set_db_limit
  by (fastforce simp: verifiedArtistsPosts_def sort_createdAt_desc_def db_find_def)

lemma set_recentDiverse:
  "set (recentDiverse usr store now n)
   \<subseteq> {p \<in> set store. author p \<notin> set (excludeIds usr) \<and> isActive p}"
  using set_db_limit by (fastforce simp: recentDiverse_def sort_createdAt_desc_def db_find_def)

lemma set_algorithmPosts:
  "set (algorithmPosts users usr store now limit)
   \<subseteq> {p \<in> set store. author p \<notin> set (excludeIds usr) \<and> isActive p}"
  using set_recentPopular [of usr store now limit]
        set_verifiedArtistsPosts [of users usr store now limit]
        set_recentDiverse [of usr store now]
  unfolding algorithmPosts_def Let_def
  by (auto split: if_splits)

lemma set_uniquePosts: "set (uniquePosts xs) \<subseteq> set xs"
  unfolding uniquePosts_dedup by (rule dedup_set)

lemma docs_for_you_feed:
  assumes "\<And>xs. set (shuffle xs) \<subseteq> set xs"
  shows "doc ` set (returned_posts (for_you_feed conv shuffle users store userId now page limit))
   \<subseteq> (case findById users userId of None \<Rightarrow> {}
       | Some usr \<Rightarrow> set (algorithmPosts users usr store now limit))"
proof (cases "findById users userId")
  case None
  then show ?thesis by (simp add: for_you_feed_def returned_posts_def)
next
  case (Some usr)
  let ?u = "uniquePosts (algorithmPosts users usr store now limit)"
  let ?s = "shuffledPosts shuffle ?u page limit"
  have "doc ` set (map_non_null (withUserData conv (uid usr)) (map Some ?s)) = set (filter conv ?s)"
    using docs_following [of conv "uid usr" ?s] by (metis set_map)
  moreover have "set ?s \<subseteq> set (algorithmPosts users usr store now limit)"
    using set_js_slice [of "(page - 1) * limit" "page * limit" "shuffle ?u"] assms [of ?u]
          set_uniquePosts [of "algorithmPosts users usr store now limit"]
    unfolding shuffledPosts_def by blast
  ultimately show ?thesis
    using Some by (auto simp: for_you_feed_def returned_posts_def Let_def)
qed

section \<open>Likes\<close>

lemma list_ex_eq_mem: "list_ex (\<lambda>i. i = u) xs = (u \<in> set xs)"
  by (auto simp: list_ex_iff)

lemma filter_neq_id: "u \<notin> set xs \<Longrightarrow> filter (\<lambda>i. \<not> i = u) xs = xs"
  by (induction xs) auto

text \<open>
  Claim C10. Liking a post whose likes already hold the user changes nothing, so liking
  is idempotent, likes without duplicates stay without duplicates, and the like count
  grows by at most one per call. Unliking removes every occurrence of the user. Liking
  and then unliking, for a user who was not among the likes, gives the original post back.
\<close>

theorem like_idempotent_unlike_restores:
  "(u \<in> set (likes p) \<longrightarrow> like p u = p)
   \<and> like (like q v) v = like q v
   \<and> (distinct (likes p) \<longrightarrow> distinct (likes (like p u)))
   \<and> length (likes q) \<le> length (likes (like q v))
   \<and> length (likes (like q v)) \<le> length (likes q) + 1
   \<and> v \<notin> set (likes (unlike (like q v) v))
   \<and> u \<notin> set (likes (unlike p u))
   \<and> (v \<notin> set (likes q) \<longrightarrow> unlike (like q v) v = q)"
  by (simp add: like_def unlike_def list_ex_eq_mem filter_neq_id)

theorem like_idempotent_unlike_restores_witness:
  "(let p = \<lparr>pid = 1, author = 2, content = ''a'', likes = [3, 4], comments = [],
             isActive = True, isPinned = False, createdAt = 0\<rparr>
    in 3 \<in> set (likes p) \<and> distinct (likes p) \<and> 5 \<notin> set (likes p)
       \<and> like p 3 = p \<and> likes (like p 5) = [3, 4, 5] \<and> distinct (likes (like p 3))
       \<and> unlike (like p 5) 5 = p)"
  using like_idempotent_unlike_restores
    [of 3 "\<lparr>pid = 1, author = 2, content = ''a'', likes = [3, 4], comments = [],
             isActive = True, isPinned = False, createdAt = 0\<rparr>" 
        "\<lparr>pid = 1, author = 2, content = ''a'', likes = [3, 4], comments = [],
             isActive = True, isPinned = False, createdAt = 0\<rparr>" 5]
  by (simp add: like_def unlike_def)

section \<open>Evaluating the routes on the example site\<close>

lemmas store_defs = db_find_def db_limit_def db_skip_def sort_createdAt_desc_def
  sort_isPinned_createdAt_desc_def pinned_key_def findById_def floor_tenths_def day_ms_def
  interactions_def excludeIds_def

lemmas ex_defs = ex_users_def ex_store_def ex_now_def

lemmas route_defs = following_query_def following_posts_def following_feed_def
  recentPopular_def verifiedArtistIds_def verifiedArtistsPosts_def recentDiverse_def
  algorithmPosts_def author_isVerified_def shuffledPosts_def for_you_feed_def
  discover_query_def discover_posts_def discover_feed_def returned_posts_def
  uniquePosts_def filter_indexed_def js_slice_def map_non_null_def withUserData_def
  withOptionalUserData_def toObject_def

lemma ex_viewer_1: "findById ex_users 1 = Some (hd ex_users)"
  by (simp add: findById_def ex_users_def)

lemma ex_viewer_4: "findById ex_users 4 = Some (last ex_users)"
  by (simp add: findById_def ex_users_def)

lemma ex_for_you:
  "map (pid \<circ> doc)
     (returned_posts (for_you_feed (\<lambda>p. True) rev ex_users ex_store 1 ex_now 1 10))
   = [6, 3, 4]"
  by (simp add: store_defs ex_defs route_defs)

lemma ex_following_1:
  "map (pid \<circ> doc) (returned_posts (following_feed (\<lambda>p. True) ex_users ex_store 1 1 10))
   = [7, 1, 2]"
  by (simp add: store_defs ex_defs route_defs)

lemma ex_following_4:
  "map (pid \<circ> doc) (returned_posts (following_feed (\<lambda>p. True) ex_users ex_store 4 1 10))
   = [6, 8]"
  by (simp add: store_defs ex_defs route_defs)

lemma ex_discover:
  "map (pid \<circ> doc) (returned_posts (discover_feed (\<lambda>p. True) ex_store None ex_now 1 10))
   = [1, 6, 4, 2]"
  by (simp add: store_defs ex_defs route_defs)

section \<open>For-you feed: exclusion\<close>

text \<open>
  Claim C1. For a viewer the user store resolves, and a shuffle that permutes its
  argument, no post of any of the three candidate pools, and no post of the for-you
  response, is authored by the viewer or by a member of the viewer's following list.
\<close>

theorem for_you_excludes_viewer_and_following:
  assumes perm: "\<And>xs. mset (shuffle xs) = mset xs"
    and viewer: "findById users userId = Some usr"
  shows "(\<forall>p \<in> set (recentPopular usr store now limit).
            author p \<noteq> userId \<and> author p \<notin> set (following usr))
       \<and> (\<forall>p \<in> set (verifiedArtistsPosts users usr store now limit).
            author p \<noteq> userId \<and> author p \<notin> set (following usr))
       \<and> (\<forall>p \<in> set (recentDiverse usr store now n).
            author p \<noteq> userId \<and> author p \<notin> set (following usr))
       \<and> (\<forall>ob \<in> set (returned_posts
                         (for_you_feed conv shuffle users store userId now page limit)).
            author (doc ob) \<noteq> userId \<and> author (doc ob) \<notin> set (following usr))"
proof -
  have u: "uid usr = userId"
    using viewer by (rule findById_uid)
  have sub: "set (shuffle xs) \<subseteq> set xs" for xs
    using mset_eq_setD [OF perm [of xs]] by simp
  have a: "\<forall>p \<in> set (recentPopular usr store now limit).
             author p \<noteq> userId \<and> author p \<notin> set (following usr)"
    using set_recentPopular [of usr store now limit] u by (auto simp: excludeIds_def)
  have b: "\<forall>p \<in> set (verifiedArtistsPosts users usr store now limit).
             author p \<noteq> userId \<and> author p \<notin> set (following usr)"
    using set_verifiedArtistsPosts [of users usr store now limit] u
    by (auto simp: excludeIds_def)
  have c: "\<forall>p \<in> set (recentDiverse usr store now n).
             author p \<noteq> userId \<and> author p \<notin> set (following usr)"
    using set_recentDiverse [of usr store now n] u by (auto simp: excludeIds_def)
  have d: "\<forall>ob \<in> set (returned_posts
                         (for_you_feed conv shuffle users store userId now page limit)).
             author (doc ob) \<noteq> userId \<and> author (doc ob) \<notin> set (following usr)"
  proof
    fix ob
    assume "ob \<in> set (returned_posts
                        (for_you_feed conv shuffle users store userId now page limit))"
    then have "doc ob \<in> set (algorithmPosts users usr store now limit)"
      using docs_for_you_feed [of shuffle conv users store userId now page limit] sub viewer
      by auto
    then show "author (doc ob) \<noteq> userId \<and> author (doc ob) \<notin> set (following usr)"
      using set_algorithmPosts [of users usr store now limit] u by (auto simp: excludeIds_def)
  qed
  from a b c d show ?thesis by blast
qed

theorem for_you_excludes_viewer_and_following_witness:
  "(\<forall>xs :: post list. mset (rev xs) = mset xs)
   \<and> findById ex_users 1 = Some (hd ex_users)
   \<and> map (pid \<circ> doc)
         (returned_posts (for_you_feed (\<lambda>p. True) rev ex_users ex_store 1 ex_now 1 10))
       = [6, 3, 4]
   \<and> list_all (\<lambda>ob. author (doc ob) \<noteq> 1 \<and> author (doc ob) \<notin> set (following (hd ex_users)))
         (returned_posts (for_you_feed (\<lambda>p. True) rev ex_users ex_store 1 ex_now 1 10))"
proof -
  have h1: "mset (rev xs) = mset xs" for xs :: "post list"
    by simp
  have h2: "findById ex_users 1 = Some (hd ex_users)"
    by (rule ex_viewer_1)
  have h3: "map (pid \<circ> doc)
         (returned_posts (for_you_feed (\<lambda>p. True) rev ex_users ex_store 1 ex_now 1 10))
       = [6, 3, 4]"
    by (rule ex_for_you)
  have h4: "list_all
              (\<lambda>ob. author (doc ob) \<noteq> 1 \<and> author (doc ob) \<notin> set (following (hd ex_users)))
              (returned_posts (for_you_feed (\<lambda>p. True) rev ex_users ex_store 1 ex_now 1 10))"
    using for_you_excludes_viewer_and_following
      [of rev ex_users 1 "hd ex_users" ex_store ex_now 10 10 "\<lambda>p. True" 1, OF h1 h2]
    unfolding list_all_iff by (elim conjE)
  from h1 h2 h3 h4 show ?thesis
    by (intro conjI allI)
qed

section \<open>Following feed: authors and order\<close>

lemma pinned_key_le: "pinned_key a \<le> pinned_key b \<Longrightarrow> pinned_first a b"
  by (auto simp: pinned_key_def pinned_first_def split: if_splits)

lemma sorted_following_query: "sorted_wrt pinned_first (following_query usr store)"
proof -
  have "sorted (map pinned_key (following_query usr store))"
    by (simp add: following_query_def sort_isPinned_createdAt_desc_def Let_def)
  then have "sorted_wrt (\<lambda>a b. pinned_key a \<le> pinned_key b) (following_query usr store)"
    by (simp add: sorted_map)
  then show ?thesis
    by (rule sorted_wrt_mono_rel [rotated]) (simp add: pinned_key_le)
qed

lemma sorted_following_posts:
  assumes "following_posts usr store page limit = Inr ps"
  shows "sorted_wrt pinned_first ps"
proof -
  from assms obtain n where ps: "ps = db_limit limit (drop n (following_query usr store))"
    by (auto simp: following_posts_def db_skip_def split: if_splits)
  have "sorted_wrt pinned_first (drop n (following_query usr store))"
    using sorted_following_query by (rule sorted_wrt_drop)
  then show ?thesis
    unfolding ps db_limit_def by simp
qed

lemma docs_following_feed_eq:
  assumes "findById users userId = Some usr"
  shows "map doc (returned_posts (following_feed conv users store userId page limit))
         = (case following_posts usr store page limit of Inl e \<Rightarrow> [] | Inr ps \<Rightarrow> filter conv ps)"
  using assms
  by (simp add: following_feed_def returned_posts_def Let_def docs_following split: sum.splits)

text \<open>
  Claim C2. For a viewer the user store resolves, the following feed returns only posts
  authored by the viewer when the viewer follows nobody, and only posts authored by the
  viewer or by a followed user otherwise; the returned posts are ordered pinned first and,
  among posts with the same pinned flag, by creation time descending.
\<close>

theorem following_feed_authors_and_order:
  assumes viewer: "findById users userId = Some usr"
  shows "(following usr = [] \<longrightarrow>
            (\<forall>ob \<in> set (returned_posts (following_feed conv users store userId page limit)).
               author (doc ob) = userId))
       \<and> (\<forall>ob \<in> set (returned_posts (following_feed conv users store userId page limit)).
            author (doc ob) = userId \<or> author (doc ob) \<in> set (following usr))
       \<and> sorted_wrt pinned_first
            (map doc (returned_posts (following_feed conv users store userId page limit)))"
proof -
  let ?R = "returned_posts (following_feed conv users store userId page limit)"
  have u: "uid usr = userId"
    using viewer by (rule findById_uid)
  have mem: "author (doc ob) = userId \<or> author (doc ob) \<in> set (following usr)"
    if "ob \<in> set ?R" for ob
  proof -
    from that have "doc ob \<in> set (following_query usr store)"
      using docs_following_feed [of conv users store userId page limit] viewer by auto
    then show ?thesis
      using u by (simp add: set_following_query)
  qed
  have ord: "sorted_wrt pinned_first (map doc ?R)"
  proof (cases "following_posts usr store page limit")
    case (Inl e)
    then show ?thesis
      by (simp add: docs_following_feed_eq [OF viewer])
  next
    case (Inr ps)
    then show ?thesis
      using sorted_following_posts [OF Inr]
      by (simp add: docs_following_feed_eq [OF viewer] sorted_wrt_filter)
  qed
  from mem ord show ?thesis by auto
qed

theorem following_feed_authors_and_order_witness:
  "findById ex_users 4 = Some (last ex_users) \<and> following (last ex_users) = []
   \<and> map (pid \<circ> doc) (returned_posts (following_feed (\<lambda>p. True) ex_users ex_store 4 1 10))
       = [6, 8]
   \<and> list_all (\<lambda>ob. author (doc ob) = 4)
         (returned_posts (following_feed (\<lambda>p. True) ex_users ex_store 4 1 10))
   \<and> findById ex_users 1 = Some (hd ex_users)
   \<and> map (pid \<circ> doc) (returned_posts (following_feed (\<lambda>p. True) ex_users ex_store 1 1 10))
       = [7, 1, 2]
   \<and> list_all (\<lambda>ob. author (doc ob) = 1 \<or> author (doc ob) \<in> set (following (hd ex_users)))
         (returned_posts (following_feed (\<lambda>p. True) ex_users ex_store 1 1 10))
   \<and> sorted_wrt pinned_first
        (map doc (returned_posts (following_feed (\<lambda>p. True) ex_users ex_store 1 1 10)))"
proof -
  have e: "following (last ex_users) = []"
    by (simp add: ex_users_def)
  have a: "list_all (\<lambda>ob. author (doc ob) = 4)
             (returned_posts (following_feed (\<lambda>p. True) ex_users ex_store 4 1 10))"
    using following_feed_authors_and_order
      [OF ex_viewer_4, of "\<lambda>p. True" ex_store 1 10] e
    unfolding list_all_iff by (elim conjE) simp
  have b: "list_all
             (\<lambda>ob. author (doc ob) = 1 \<or> author (doc ob) \<in> set (following (hd ex_users)))
             (returned_posts (following_feed (\<lambda>p. True) ex_users ex_store 1 1 10))
           \<and> sorted_wrt pinned_first
                (map doc (returned_posts (following_feed (\<lambda>p. True) ex_users ex_store 1 1 10)))"
    using following_feed_authors_and_order
      [OF ex_viewer_1, of "\<lambda>p. True" ex_store 1 10]
    unfolding list_all_iff by (elim conjE) (intro conjI)
  from ex_viewer_4 e ex_following_4 a ex_viewer_1 ex_following_1
       b [THEN conjunct1] b [THEN conjunct2]
  show ?thesis
    by (intro conjI)
qed

section \<open>Inactive posts\<close>

lemma docs_sub_active_following:
  "ob \<in> set (returned_posts (following_feed conv users store userId page limit))
   \<Longrightarrow> isActive (doc ob)"
  using docs_following_feed [of conv users store userId page limit]
  by (cases "findById users userId") (auto simp: set_following_query)

lemma docs_sub_active_discover:
  "ob \<in> set (returned_posts (discover_feed conv store reqUser now page limit))
   \<Longrightarrow> isActive (doc ob)"
  using docs_discover_feed [of conv store reqUser now page limit]
  by (auto simp: set_discover_query)

lemma docs_sub_active_for_you:
  assumes "\<And>xs. set (shuffle xs) \<subseteq> set xs"
    and "ob \<in> set (returned_posts (for_you_feed conv shuffle users store userId now page limit))"
  shows "isActive (doc ob)"
proof (cases "findById users userId")
  case None
  with assms(2) show ?thesis by (simp add: for_you_feed_def returned_posts_def)
next
  case (Some usr)
  with assms(2) have "doc ob \<in> set (algorithmPosts users usr store now limit)"
    using docs_for_you_feed [of shuffle conv users store userId now page limit] assms(1)
    by auto
  then show ?thesis
    using set_algorithmPosts [of users usr store now limit] by auto
qed

text \<open>
  Claim C4. A post whose active flag is false is in the response of none of the three
  feeds, for any viewer, page and limit (the shuffle of the for-you feed being a
  permutation).
\<close>

theorem inactive_posts_never_returned:
  assumes inactive: "\<not> isActive p"
    and perm: "\<And>xs. mset (shuffle xs) = mset xs"
  shows "p \<notin> doc ` set (returned_posts (following_feed conv users store userId page limit))
       \<and> p \<notin> doc ` set (returned_posts
                           (for_you_feed conv shuffle users store userId now page limit))
       \<and> p \<notin> doc ` set (returned_posts (discover_feed conv store reqUser now page limit))"
proof -
  have sub: "set (shuffle xs) \<subseteq> set xs" for xs
    using mset_eq_setD [OF perm [of xs]] by simp
  have a: "p \<notin> doc ` set (returned_posts (following_feed conv users store userId page limit))"
    using inactive docs_sub_active_following by blast
  have b: "p \<notin> doc ` set (returned_posts
                           (for_you_feed conv shuffle users store userId now page limit))"
    using inactive docs_sub_active_for_you [of shuffle _ conv users store userId now page limit] sub
    by blast
  have c: "p \<notin> doc ` set (returned_posts (discover_feed conv store reqUser now page limit))"
    using inactive docs_sub_active_discover by blast
  from a b c show ?thesis by (intro conjI)
qed

theorem inactive_posts_never_returned_witness:
  "\<not> isActive (ex_store ! 4) \<and> (\<forall>xs :: post list. mset (rev xs) = mset xs)
   \<and> ex_store ! 4 \<in> set ex_store
   \<and> ex_store ! 4 \<notin> doc ` set (returned_posts (following_feed (\<lambda>p. True) ex_users ex_store 1 1 10))
   \<and> ex_store ! 4 \<notin> doc ` set (returned_posts
                           (for_you_feed (\<lambda>p. True) rev ex_users ex_store 1 ex_now 1 10))
   \<and> ex_store ! 4 \<notin> doc ` set (returned_posts (discover_feed (\<lambda>p. True) ex_store None ex_now 1 10))"
proof -
  have h1: "\<not> isActive (ex_store ! 4)"
    by (simp add: ex_store_def)
  have h2: "mset (rev xs) = mset xs" for xs :: "post list"
    by simp
  have h3: "ex_store ! 4 \<in> set ex_store"
    by (simp add: ex_store_def)
  note t = inactive_posts_never_returned
      [OF h1 h2, of "\<lambda>p. True" ex_users ex_store 1 1 10 ex_now None]
  from h1 h2 h3 t [THEN conjunct1] t [THEN conjunct2, THEN conjunct1]
       t [THEN conjunct2, THEN conjunct2]
  show ?thesis
    by (intro conjI allI)
qed

section \<open>The liked flag\<close>

lemma liked_withUserData:
  "ob \<in> set (map_non_null (withUserData conv u) es)
   \<Longrightarrow> isLikedByUser ob = Some (u \<in> set (likes (doc ob)))"
  by (induction es)
     (auto simp: map_non_null_def withUserData_def toObject_def list_ex_eq_mem
           split: option.splits if_splits)

lemma liked_withOptionalUserData:
  "ob \<in> set (map_non_null (withOptionalUserData conv r) es)
   \<Longrightarrow> isLikedByUser ob = map_option (\<lambda>u. u \<in> set (likes (doc ob))) r"
  by (induction es)
     (auto simp: map_non_null_def withOptionalUserData_def toObject_def list_ex_eq_mem
           split: option.splits if_splits)

text \<open>
  Claim C8. In the following and the for-you feed, and in the discover feed for an
  authenticated viewer, every returned post carries the flag, and the flag is true exactly
  when the viewer is among the post's likes. In the discover feed for an anonymous
  request no returned post carries the flag.
\<close>

theorem isLikedByUser_iff_liker:
  "(\<forall>ob \<in> set (returned_posts (following_feed conv users store userId page limit)).
      isLikedByUser ob = Some (userId \<in> set (likes (doc ob))))
   \<and> (\<forall>ob \<in> set (returned_posts
                     (for_you_feed conv shuffle users store userId now page limit)).
        isLikedByUser ob = Some (userId \<in> set (likes (doc ob))))
   \<and> (\<forall>ob \<in> set (returned_posts (discover_feed conv store (Some userId) now page limit)).
        isLikedByUser ob = Some (userId \<in> set (likes (doc ob))))
   \<and> (\<forall>ob \<in> set (returned_posts (discover_feed conv store None now page limit)).
        isLikedByUser ob = None)
   \<and> isLikedBy p (Some userId) = (userId \<in> set (likes p))"
proof -
  have a: "\<forall>ob \<in> set (returned_posts (following_feed conv users store userId page limit)).
      isLikedByUser ob = Some (userId \<in> set (likes (doc ob)))"
    by (auto simp: following_feed_def returned_posts_def Let_def
             split: option.splits sum.splits
             dest!: liked_withUserData findById_uid)
  have b: "\<forall>ob \<in> set (returned_posts
                     (for_you_feed conv shuffle users store userId now page limit)).
        isLikedByUser ob = Some (userId \<in> set (likes (doc ob)))"
    by (auto simp: for_you_feed_def returned_posts_def Let_def
             split: option.splits
             dest!: liked_withUserData findById_uid)
  have c: "\<forall>ob \<in> set (returned_posts (discover_feed conv store r now page limit)).
        isLikedByUser ob = map_option (\<lambda>u. u \<in> set (likes (doc ob))) r" for r
    by (auto simp: discover_feed_def returned_posts_def Let_def
             split: sum.splits
             dest!: liked_withOptionalUserData)
  have d: "isLikedBy p (Some userId) = (userId \<in> set (likes p))"
    by (simp add: list_ex_eq_mem)
  from a b c [of "Some userId"] c [of None] d show ?thesis
    by simp
qed

theorem isLikedByUser_iff_liker_witness:
  "map isLikedByUser (returned_posts (following_feed (\<lambda>p. True) ex_users ex_store 1 1 10))
     = [Some False, Some False, Some True]
   \<and> map (likes \<circ> doc) (returned_posts (following_feed (\<lambda>p. True) ex_users ex_store 1 1 10))
     = [[], [], [1]]
   \<and> list_all (\<lambda>ob. isLikedByUser ob = Some (1 \<in> set (likes (doc ob))))
         (returned_posts (following_feed (\<lambda>p. True) ex_users ex_store 1 1 10))
   \<and> map isLikedByUser (returned_posts (discover_feed (\<lambda>p. True) ex_store None ex_now 1 10))
     = [None, None, None, None]
   \<and> list_all (\<lambda>ob. isLikedByUser ob = None)
         (returned_posts (discover_feed (\<lambda>p. True) ex_store None ex_now 1 10))"
proof -
  have a: "map isLikedByUser (returned_posts (following_feed (\<lambda>p. True) ex_users ex_store 1 1 10))
     = [Some False, Some False, Some True]"
    by (simp add: store_defs ex_defs route_defs)
  have b: "map (likes \<circ> doc) (returned_posts (following_feed (\<lambda>p. True) ex_users ex_store 1 1 10))
     = [[], [], [1]]"
    by (simp add: store_defs ex_defs route_defs)
  have c: "map isLikedByUser (returned_posts (discover_feed (\<lambda>p. True) ex_store None ex_now 1 10))
     = [None, None, None, None]"
    by (simp add: store_defs ex_defs route_defs)
  note t = isLikedByUser_iff_liker
      [of "\<lambda>p. True" ex_users ex_store 1 1 10 rev ex_now "hd ex_store"]
  from a b t [THEN conjunct1] c
       t [THEN conjunct2, THEN conjunct2, THEN conjunct2, THEN conjunct1]
  show ?thesis
    unfolding list_all_iff by (intro conjI)
qed

section \<open>Pagination\<close>

lemma nth_window: "map (nth xs) (filter (\<lambda>i. i < length xs) [a..<a + n]) = take n (drop a xs)"
proof (induction n)
  case 0
  then show ?case by simp
next
  case (Suc n)
  show ?case
  proof (cases "a + n < length xs")
    case True
    then have "take (Suc n) (drop a xs) = take n (drop a xs) @ [xs ! (a + n)]"
      by (simp add: take_Suc_conv_app_nth)
    with Suc True show ?thesis by simp
  next
    case False
    then have "take (Suc n) (drop a xs) = take n (drop a xs)"
      by simp
    with Suc False show ?thesis by simp
  qed
qed

lemma page_bounds:
  assumes "1 \<le> page" "0 < limit"
  shows "0 \<le> (page - 1) * limit"
    and "nat (page * limit) = nat ((page - 1) * limit) + nat limit"
proof -
  show nonneg: "0 \<le> (page - 1) * limit"
    using assms by simp
  have "page * limit = (page - 1) * limit + limit"
    by (simp add: algebra_simps)
  then show "nat (page * limit) = nat ((page - 1) * limit) + nat limit"
    using nonneg assms(2) by (simp add: nat_add_distrib)
qed

lemma window_take_drop:
  assumes "1 \<le> page" "0 < limit"
  shows "window page limit xs = take (nat limit) (drop (nat ((page - 1) * limit)) xs)"
  unfolding window_def page_bounds(2) [OF assms] by (rule nth_window)

lemma js_slice_take_drop:
  assumes "0 \<le> s" "s \<le> f"
  shows "js_slice s f xs = take (nat (f - s)) (drop (nat s) xs)"
proof (cases "s \<le> int (length xs)")
  case True
  with assms show ?thesis
    by (auto simp: js_slice_def Let_def min_def intro!: take_all [THEN trans] take_all [symmetric])
next
  case False
  with assms show ?thesis
    by (simp add: js_slice_def Let_def min_def)
qed

lemma shuffledPosts_window:
  assumes "1 \<le> page" "0 < limit"
  shows "shuffledPosts shuffle unique page limit = window page limit (shuffle unique)"
proof -
  have "(page - 1) * limit \<le> page * limit"
    using assms by (simp add: mult_right_mono)
  moreover have "nat (page * limit - (page - 1) * limit) = nat limit"
    by (simp add: algebra_simps)
  ultimately show ?thesis
    using js_slice_take_drop [of "(page - 1) * limit" "page * limit" "shuffle unique"]
          page_bounds(1) [OF assms]
    by (simp add: shuffledPosts_def window_take_drop [OF assms])
qed

lemma following_posts_window:
  assumes "1 \<le> page" "0 < limit"
  shows "following_posts usr store page limit = Inr (window page limit (following_query usr store))"
  using page_bounds(1) [OF assms] assms(2)
  by (simp add: following_posts_def db_skip_def db_limit_def window_take_drop [OF assms])

lemma discover_posts_window:
  assumes "1 \<le> page" "0 < limit"
  shows "discover_posts store now page limit = Inr (window page limit (discover_query store now))"
  using page_bounds(1) [OF assms] assms(2)
  by (simp add: discover_posts_def db_skip_def db_limit_def window_take_drop [OF assms])

lemma length_window:
  assumes "1 \<le> page" "0 < limit"
  shows "int (length (filter conv (window page limit xs))) \<le> limit"
proof -
  have "length (filter conv (window page limit xs)) \<le> length (window page limit xs)"
    by (rule length_filter_le)
  also have "\<dots> \<le> nat limit"
    by (simp add: window_take_drop [OF assms])
  finally show ?thesis
    using assms(2) by simp
qed

lemma docs_for_you_feed_eq:
  assumes "findById users userId = Some usr"
  shows "map doc (returned_posts (for_you_feed conv shuffle users store userId now page limit))
         = filter conv (shuffledPosts shuffle
                          (uniquePosts (algorithmPosts users usr store now limit)) page limit)"
  using assms
  by (simp add: for_you_feed_def returned_posts_def Let_def docs_following)

lemma docs_discover_feed_eq:
  "map doc (returned_posts (discover_feed conv store reqUser now page limit))
   = (case discover_posts store now page limit of Inl e \<Rightarrow> [] | Inr ps \<Rightarrow> filter conv ps)"
  by (simp add: discover_feed_def returned_posts_def Let_def docs_discover split: sum.splits)

lemma length_docs: "length (map doc xs) = length xs"
  by simp

text \<open>
  Claim C7. For a request with page at least 1 and a positive limit, the page of each
  feed is the window of its source sequence from index (page - 1) * limit up to, not
  including, page * limit (for the for-you feed the source is the shuffled sequence);
  page 1 starts at element 0; and each feed returns at most limit posts. The posts a
  route returns are the posts of that window of its source that convert, in the order of
  the window; on page 1 they are those among the first limit elements of the source.
\<close>

theorem page_window:
  assumes page: "1 \<le> page" and limit: "0 < limit"
  shows "following_posts usr store page limit
           = Inr (window page limit (following_query usr store))
       \<and> discover_posts store now page limit
           = Inr (window page limit (discover_query store now))
       \<and> shuffledPosts shuffle unique page limit = window page limit (shuffle unique)
       \<and> window page limit xs = take (nat limit) (drop (nat ((page - 1) * limit)) xs)
       \<and> window 1 limit xs = take (nat limit) xs
       \<and> int (length (returned_posts (following_feed conv users store userId page limit)))
           \<le> limit
       \<and> int (length (returned_posts
                        (for_you_feed conv shuffle users store userId now page limit)))
           \<le> limit
       \<and> int (length (returned_posts (discover_feed conv store reqUser now page limit)))
           \<le> limit
       \<and> (findById users userId = Some usr \<longrightarrow>
            map doc (returned_posts (following_feed conv users store userId page limit))
              = filter conv (window page limit (following_query usr store)))
       \<and> (findById users userId = Some usr \<longrightarrow>
            map doc (returned_posts
                       (for_you_feed conv shuffle users store userId now page limit))
              = filter conv
                  (window page limit
                     (shuffle (uniquePosts (algorithmPosts users usr store now limit)))))
       \<and> map doc (returned_posts (discover_feed conv store reqUser now page limit))
           = filter conv (window page limit (discover_query store now))
       \<and> (findById users userId = Some usr \<longrightarrow>
            map doc (returned_posts (following_feed conv users store userId 1 limit))
              = filter conv (take (nat limit) (following_query usr store)))
       \<and> (findById users userId = Some usr \<longrightarrow>
            map doc (returned_posts (for_you_feed conv shuffle users store userId now 1 limit))
              = filter conv
                  (take (nat limit)
                     (shuffle (uniquePosts (algorithmPosts users usr store now limit)))))
       \<and> map doc (returned_posts (discover_feed conv store reqUser now 1 limit))
           = filter conv (take (nat limit) (discover_query store now))"
proof -
  have one: "(1::int) \<le> 1"
    by simp
  have w1: "window 1 limit xs = take (nat limit) xs" for xs :: "'z list"
    using window_take_drop [of 1 limit xs] limit by simp
  have rf: "map doc (returned_posts (following_feed conv users store userId pg limit))
              = filter conv (window pg limit (following_query usr store))"
    if "findById users userId = Some usr" "1 \<le> pg" for pg
    by (simp add: docs_following_feed_eq [OF that(1)] following_posts_window [OF that(2) limit])
  have ry: "map doc (returned_posts
                       (for_you_feed conv shuffle users store userId now pg limit))
              = filter conv
                  (window pg limit
                     (shuffle (uniquePosts (algorithmPosts users usr store now limit))))"
    if "findById users userId = Some usr" "1 \<le> pg" for pg
    by (simp add: docs_for_you_feed_eq [OF that(1)] shuffledPosts_window [OF that(2) limit])
  have rd: "map doc (returned_posts (discover_feed conv store reqUser now pg limit))
           = filter conv (window pg limit (discover_query store now))"
    if "1 \<le> pg" for pg
    by (simp add: docs_discover_feed_eq discover_posts_window [OF that limit])
  have rf': "findById users userId = Some usr \<longrightarrow>
            map doc (returned_posts (following_feed conv users store userId page limit))
              = filter conv (window page limit (following_query usr store))"
    using rf [OF _ page] by (intro impI)
  have ry': "findById users userId = Some usr \<longrightarrow>
            map doc (returned_posts
                       (for_you_feed conv shuffle users store userId now page limit))
              = filter conv
                  (window page limit
                     (shuffle (uniquePosts (algorithmPosts users usr store now limit))))"
    using ry [OF _ page] by (intro impI)
  have rf1: "findById users userId = Some usr \<longrightarrow>
            map doc (returned_posts (following_feed conv users store userId 1 limit))
              = filter conv (take (nat limit) (following_query usr store))"
    using rf [OF _ one] by (simp add: w1)
  have ry1: "findById users userId = Some usr \<longrightarrow>
            map doc (returned_posts (for_you_feed conv shuffle users store userId now 1 limit))
              = filter conv
                  (take (nat limit)
                     (shuffle (uniquePosts (algorithmPosts users usr store now limit))))"
    using ry [OF _ one] by (simp add: w1)
  have rd1: "map doc (returned_posts (discover_feed conv store reqUser now 1 limit))
           = filter conv (take (nat limit) (discover_query store now))"
    using rd [OF one] by (simp add: w1)
  have lf: "int (length (returned_posts (following_feed conv users store userId page limit)))
            \<le> limit"
  proof (cases "findById users userId")
    case None
    then show ?thesis
      using limit by (simp add: following_feed_def returned_posts_def)
  next
    case (Some u)
    show ?thesis
      using length_window [OF page limit, of conv "following_query u store"]
            docs_following_feed_eq [OF Some, of conv store page limit]
            length_docs [of "returned_posts (following_feed conv users store userId page limit)"]
      by (simp add: following_posts_window [OF page limit])
  qed
  have ly: "int (length (returned_posts
                        (for_you_feed conv shuffle users store userId now page limit)))
            \<le> limit"
  proof (cases "findById users userId")
    case None
    then show ?thesis
      using limit by (simp add: for_you_feed_def returned_posts_def)
  next
    case (Some u)
    show ?thesis
      using length_window [OF page limit, of conv
              "shuffle (uniquePosts (algorithmPosts users u store now limit))"]
            docs_for_you_feed_eq [OF Some, of conv shuffle store now page limit]
            length_docs [of "returned_posts
                               (for_you_feed conv shuffle users store userId now page limit)"]
      by (simp add: shuffledPosts_window [OF page limit])
  qed
  have ld: "int (length (returned_posts (discover_feed conv store reqUser now page limit)))
            \<le> limit"
    using length_window [OF page limit, of conv "discover_query store now"]
          docs_discover_feed_eq [of conv store reqUser now page limit]
          length_docs [of "returned_posts (discover_feed conv store reqUser now page limit)"]
    by (simp add: discover_posts_window [OF page limit])
  from following_posts_window [OF page limit] discover_posts_window [OF page limit]
       shuffledPosts_window [OF page limit] window_take_drop [OF page limit] w1 lf ly ld
       rf' ry' rd [OF page] rf1 ry1 rd1
  show ?thesis
    by (intro conjI)
qed

theorem page_window_witness:
  "(1::int) \<le> 2 \<and> (0::int) < 2
   \<and> map pid (discover_query ex_store ex_now) = [1, 6, 4, 2]
   \<and> map pid (window 2 2 (discover_query ex_store ex_now)) = [4, 2]
   \<and> discover_posts ex_store ex_now 2 2 = Inr (window 2 2 (discover_query ex_store ex_now))
   \<and> map pid (window 1 2 (discover_query ex_store ex_now)) = [1, 6]
   \<and> int (length (returned_posts (discover_feed (\<lambda>p. True) ex_store None ex_now 2 2))) \<le> 2
   \<and> map (pid \<circ> doc) (returned_posts (discover_feed (\<lambda>p. True) ex_store None ex_now 2 2))
       = [4, 2]
   \<and> map (pid \<circ> doc) (returned_posts (discover_feed (\<lambda>p. True) ex_store None ex_now 1 2))
       = [1, 6]
   \<and> findById ex_users 1 = Some (hd ex_users)
   \<and> map pid (following_query (hd ex_users) ex_store) = [7, 1, 2]
   \<and> map (pid \<circ> doc) (returned_posts (following_feed (\<lambda>p. True) ex_users ex_store 1 2 2))
       = [2]
   \<and> map (pid \<circ> doc) (returned_posts (following_feed (\<lambda>p. True) ex_users ex_store 1 1 2))
       = [7, 1]
   \<and> map pid (rev (uniquePosts (algorithmPosts ex_users (hd ex_users) ex_store ex_now 2)))
       = [3, 4]
   \<and> map (pid \<circ> doc)
         (returned_posts (for_you_feed (\<lambda>p. pid p \<noteq> 3) rev ex_users ex_store 1 ex_now 1 2))
       = [4]"
proof -
  have h1: "(1::int) \<le> 2" and h2: "(0::int) < 2"
    by simp_all
  have q: "map pid (discover_query ex_store ex_now) = [1, 6, 4, 2]"
    by (simp add: store_defs ex_defs route_defs)
  have fq: "map pid (following_query (hd ex_users) ex_store) = [7, 1, 2]"
    by (simp add: store_defs ex_defs route_defs)
  have yq: "map pid (rev (uniquePosts (algorithmPosts ex_users (hd ex_users) ex_store ex_now 2)))
            = [3, 4]"
    by (simp add: store_defs ex_defs route_defs)
  note t = page_window [OF h1 h2, of "hd ex_users" ex_store ex_now rev "[]"
      "discover_query ex_store ex_now" "\<lambda>p. True" ex_users 1 None]
  note tf = page_window [OF h1 h2, of "hd ex_users" ex_store ex_now rev "[]"
      "following_query (hd ex_users) ex_store" "\<lambda>p. True" ex_users 1 None]
  note ty = page_window [OF h1 h2, of "hd ex_users" ex_store ex_now rev "[]"
      "[] :: post list" "\<lambda>p. pid p \<noteq> 3" ex_users 1 None]
  have w: "window 2 2 (discover_query ex_store ex_now)
           = take (nat 2) (drop (nat ((2 - 1) * 2)) (discover_query ex_store ex_now))"
    using t by (elim conjE)
  have w2: "map pid (window 2 2 (discover_query ex_store ex_now)) = [4, 2]"
    unfolding w using q by (simp add: take_map [symmetric] drop_map [symmetric])
  have v: "window 1 2 (discover_query ex_store ex_now)
           = take (nat 2) (discover_query ex_store ex_now)"
    using t by (elim conjE)
  have w1: "map pid (window 1 2 (discover_query ex_store ex_now)) = [1, 6]"
    unfolding v using q by (simp add: take_map [symmetric])
  have d2: "map doc (returned_posts (discover_feed (\<lambda>p. True) ex_store None ex_now 2 2))
            = filter (\<lambda>p. True) (window 2 2 (discover_query ex_store ex_now))"
    using t by (elim conjE)
  have d2': "map (pid \<circ> doc)
               (returned_posts (discover_feed (\<lambda>p. True) ex_store None ex_now 2 2)) = [4, 2]"
    using d2 w2 by (simp add: map_map [symmetric] del: map_map)
  have d1: "map doc (returned_posts (discover_feed (\<lambda>p. True) ex_store None ex_now 1 2))
            = filter (\<lambda>p. True) (take (nat 2) (discover_query ex_store ex_now))"
    using t by (elim conjE)
  have d1': "map (pid \<circ> doc)
               (returned_posts (discover_feed (\<lambda>p. True) ex_store None ex_now 1 2)) = [1, 6]"
    using d1 q by (simp add: map_map [symmetric] take_map [symmetric] del: map_map)
  have fw: "window 2 2 (following_query (hd ex_users) ex_store)
            = take (nat 2) (drop (nat ((2 - 1) * 2)) (following_query (hd ex_users) ex_store))"
    using tf by (elim conjE)
  have f2: "map doc (returned_posts (following_feed (\<lambda>p. True) ex_users ex_store 1 2 2))
            = filter (\<lambda>p. True) (window 2 2 (following_query (hd ex_users) ex_store))"
    using tf ex_viewer_1 by (elim conjE) simp
  have f2': "map (pid \<circ> doc)
               (returned_posts (following_feed (\<lambda>p. True) ex_users ex_store 1 2 2)) = [2]"
    using f2 fw fq
    by (simp add: map_map [symmetric] take_map [symmetric] drop_map [symmetric] del: map_map)
  have f1: "map doc (returned_posts (following_feed (\<lambda>p. True) ex_users ex_store 1 1 2))
            = filter (\<lambda>p. True) (take (nat 2) (following_query (hd ex_users) ex_store))"
    using tf ex_viewer_1 by (elim conjE) simp
  have f1': "map (pid \<circ> doc)
               (returned_posts (following_feed (\<lambda>p. True) ex_users ex_store 1 1 2)) = [7, 1]"
    using f1 fq by (simp add: map_map [symmetric] take_map [symmetric] del: map_map)
  have y1: "map doc (returned_posts
                       (for_you_feed (\<lambda>p. pid p \<noteq> 3) rev ex_users ex_store 1 ex_now 1 2))
            = filter (\<lambda>p. pid p \<noteq> 3)
                (take (nat 2)
                   (rev (uniquePosts (algorithmPosts ex_users (hd ex_users) ex_store ex_now 2))))"
    using ty ex_viewer_1 by (elim conjE) simp
  have y1': "map (pid \<circ> doc)
               (returned_posts
                  (for_you_feed (\<lambda>p. pid p \<noteq> 3) rev ex_users ex_store 1 ex_now 1 2))
             = [4]"
  proof -
    obtain a b where ab:
      "rev (uniquePosts (algorithmPosts ex_users (hd ex_users) ex_store ex_now 2)) = [a, b]"
      "pid a = 3" "pid b = 4"
      using yq by (auto simp: map_eq_Cons_conv)
    show ?thesis
      using y1 unfolding ab(1) using ab(2,3)
      by (simp add: map_map [symmetric] del: map_map)
  qed
  from h1 h2 q w2 t [THEN conjunct2, THEN conjunct1] w1
       t [THEN conjunct2, THEN conjunct2, THEN conjunct2, THEN conjunct2, THEN conjunct2,
          THEN conjunct2, THEN conjunct2, THEN conjunct1]
       d2' d1' ex_viewer_1 fq f2' f1' yq y1'
  show ?thesis
    by (intro conjI)
qed

section \<open>The has-next flag\<close>

lemma following_feed_Inr:
  assumes "findById users userId = Some usr"
    and "following_posts usr store page limit = Inr ps"
  shows "\<exists>res. following_feed conv users store userId page limit = Inr res
           \<and> (r_hasNext res \<longleftrightarrow> int (length ps) = limit)
           \<and> map doc (r_posts res) = filter conv ps"
  using assms by (simp add: following_feed_def Let_def docs_following)

lemma for_you_feed_Inr:
  assumes "findById users userId = Some usr"
  shows "\<exists>res. for_you_feed conv shuffle users store userId now page limit = Inr res
           \<and> (r_hasNext res \<longleftrightarrow>
                int (length (shuffledPosts shuffle
                       (uniquePosts (algorithmPosts users usr store now limit)) page limit))
                = limit)
           \<and> map doc (r_posts res)
               = filter conv (shuffledPosts shuffle
                       (uniquePosts (algorithmPosts users usr store now limit)) page limit)"
  using assms by (simp add: for_you_feed_def Let_def docs_following)

lemma discover_feed_Inr:
  assumes "discover_posts store now page limit = Inr ps"
  shows "\<exists>res. discover_feed conv store reqUser now page limit = Inr res
           \<and> (r_hasNext res \<longleftrightarrow> int (length ps) = limit)
           \<and> map doc (r_posts res) = filter conv ps"
  using assms by (simp add: discover_feed_def Let_def docs_discover)

text \<open>
  Claim C6. In the following feed the flag hasNext is true exactly when the source query
  returned exactly limit posts, counted before unconvertible posts are dropped: with
  limit 10, a query result of 10 posts gives true and one of 7 posts gives false. In the
  for-you feed it is true exactly when the windowed slice has length limit. (The discover
  feed counts its source query as the following feed does.)
\<close>

theorem hasNext_counts_source:
  "(findById users userId = Some usr \<and> following_posts usr store page limit = Inr ps \<longrightarrow>
      (\<exists>res. following_feed conv users store userId page limit = Inr res
             \<and> (r_hasNext res \<longleftrightarrow> int (length ps) = limit)))
   \<and> (findById users userId = Some usr \<and> following_posts usr store page 10 = Inr ps
        \<and> length ps = 10 \<longrightarrow>
      (\<exists>res. following_feed conv users store userId page 10 = Inr res \<and> r_hasNext res))
   \<and> (findById users userId = Some usr \<and> following_posts usr store page 10 = Inr ps
        \<and> length ps = 7 \<longrightarrow>
      (\<exists>res. following_feed conv users store userId page 10 = Inr res \<and> \<not> r_hasNext res))
   \<and> (findById users userId = Some usr \<longrightarrow>
      (\<exists>res. for_you_feed conv shuffle users store userId now page limit = Inr res
             \<and> (r_hasNext res \<longleftrightarrow>
                  int (length (shuffledPosts shuffle
                         (uniquePosts (algorithmPosts users usr store now limit)) page limit))
                  = limit)))
   \<and> (discover_posts store now page limit = Inr ps \<longrightarrow>
      (\<exists>res. discover_feed conv store reqUser now page limit = Inr res
             \<and> (r_hasNext res \<longleftrightarrow> int (length ps) = limit)))"
proof -
  have a: "\<exists>res. following_feed conv users store userId page l = Inr res
             \<and> (r_hasNext res \<longleftrightarrow> int (length ps) = l)"
    if "findById users userId = Some usr" "following_posts usr store page l = Inr ps" for l
    using following_feed_Inr [OF that, of conv] by blast
  have b: "\<exists>res. for_you_feed conv shuffle users store userId now page limit = Inr res
             \<and> (r_hasNext res \<longleftrightarrow>
                  int (length (shuffledPosts shuffle
                         (uniquePosts (algorithmPosts users usr store now limit)) page limit))
                  = limit)"
    if "findById users userId = Some usr"
    using for_you_feed_Inr [OF that, of conv shuffle store now page limit] by blast
  have c: "\<exists>res. discover_feed conv store reqUser now page limit = Inr res
             \<and> (r_hasNext res \<longleftrightarrow> int (length ps) = limit)"
    if "discover_posts store now page limit = Inr ps"
    using discover_feed_Inr [OF that, of conv reqUser] by blast
  have a10: "\<exists>res. following_feed conv users store userId page 10 = Inr res \<and> r_hasNext res"
    if "findById users userId = Some usr" "following_posts usr store page 10 = Inr ps"
       "length ps = 10"
    using a [OF that(1,2)] that(3) by simp
  have a7: "\<exists>res. following_feed conv users store userId page 10 = Inr res \<and> \<not> r_hasNext res"
    if "findById users userId = Some usr" "following_posts usr store page 10 = Inr ps"
       "length ps = 7"
    using a [OF that(1,2)] that(3) by simp
  from a [of limit] a10 a7 b c show ?thesis
    by (intro conjI impI) (elim conjE, assumption)+
qed

theorem hasNext_counts_source_witness:
  "findById ex_users 1 = Some (hd ex_users)
   \<and> following_posts (hd ex_users) (ex_many [1, 2, 3, 4, 5, 6, 7, 8, 9, 10]) 1 10
       = Inr (rev (ex_many [1, 2, 3, 4, 5, 6, 7, 8, 9, 10]))
   \<and> length (rev (ex_many [1, 2, 3, 4, 5, 6, 7, 8, 9, 10])) = 10
   \<and> (\<exists>res. following_feed (\<lambda>p. pid p \<noteq> 3) ex_users
                (ex_many [1, 2, 3, 4, 5, 6, 7, 8, 9, 10]) 1 1 10 = Inr res \<and> r_hasNext res)
   \<and> following_posts (hd ex_users) (ex_many [1, 2, 3, 4, 5, 6, 7]) 1 10
       = Inr (rev (ex_many [1, 2, 3, 4, 5, 6, 7]))
   \<and> length (rev (ex_many [1, 2, 3, 4, 5, 6, 7])) = 7
   \<and> (\<exists>res. following_feed (\<lambda>p. pid p \<noteq> 3) ex_users
                (ex_many [1, 2, 3, 4, 5, 6, 7]) 1 1 10 = Inr res \<and> \<not> r_hasNext res)"
proof -
  let ?ten = "ex_many [1, 2, 3, 4, 5, 6, 7, 8, 9, 10]"
  let ?seven = "ex_many [1, 2, 3, 4, 5, 6, 7]"
  have q10: "following_posts (hd ex_users) ?ten 1 10 = Inr (rev ?ten)"
    by (simp add: store_defs ex_defs route_defs ex_many_def)
  have l10: "length (rev ?ten) = 10"
    by (simp add: ex_many_def)
  have q7: "following_posts (hd ex_users) ?seven 1 10 = Inr (rev ?seven)"
    by (simp add: store_defs ex_defs route_defs ex_many_def)
  have l7: "length (rev ?seven) = 7"
    by (simp add: ex_many_def)
  have r10: "\<exists>res. following_feed (\<lambda>p. pid p \<noteq> 3) ex_users ?ten 1 1 10 = Inr res \<and> r_hasNext res"
    using hasNext_counts_source
      [of ex_users 1 "hd ex_users" ?ten 1 10 "rev ?ten" "\<lambda>p. pid p \<noteq> 3" rev ex_now None]
      ex_viewer_1 q10 l10
    by (elim conjE) blast
  have r7: "\<exists>res. following_feed (\<lambda>p. pid p \<noteq> 3) ex_users ?seven 1 1 10 = Inr res
                  \<and> \<not> r_hasNext res"
    using hasNext_counts_source
      [of ex_users 1 "hd ex_users" ?seven 1 10 "rev ?seven" "\<lambda>p. pid p \<noteq> 3" rev ex_now None]
      ex_viewer_1 q7 l7
    by (elim conjE) blast
  from ex_viewer_1 q10 l10 r10 q7 l7 r7 show ?thesis
    by (intro conjI)
qed

section \<open>Posts that fail to convert\<close>

lemma withUserData_drop:
  "map_non_null (withUserData conv u) es
   = filter (conv \<circ> doc) (map_non_null (withUserData (\<lambda>p. True) u) es)"
  by (induction es)
     (auto simp: map_non_null_def withUserData_def toObject_def split: option.splits)

lemma withOptionalUserData_drop:
  "map_non_null (withOptionalUserData conv r) es
   = filter (conv \<circ> doc) (map_non_null (withOptionalUserData (\<lambda>p. True) r) es)"
  by (induction es)
     (auto simp: map_non_null_def withOptionalUserData_def toObject_def split: option.splits)

lemma following_feed_drop:
  "returned_posts (following_feed conv users store userId page limit)
   = filter (conv \<circ> doc)
       (returned_posts (following_feed (\<lambda>p. True) users store userId page limit))"
  using withUserData_drop [of conv]
  by (simp add: following_feed_def returned_posts_def Let_def split: option.splits sum.splits)

lemma for_you_feed_drop:
  "returned_posts (for_you_feed conv shuffle users store userId now page limit)
   = filter (conv \<circ> doc)
       (returned_posts (for_you_feed (\<lambda>p. True) shuffle users store userId now page limit))"
  using withUserData_drop [of conv]
  by (simp add: for_you_feed_def returned_posts_def Let_def split: option.splits)

lemma discover_feed_drop:
  "returned_posts (discover_feed conv store reqUser now page limit)
   = filter (conv \<circ> doc)
       (returned_posts (discover_feed (\<lambda>p. True) store reqUser now page limit))"
  using withOptionalUserData_drop [of conv]
  by (simp add: discover_feed_def returned_posts_def Let_def split: sum.splits)

text \<open>
  Claim C9. The conversion step drops the array elements that are null and the posts
  whose conversion throws, and keeps the others in order. Whenever the store answers,
  each route answers with a result, whatever posts fail to convert, and its posts are
  those of the page that convert: the response is the one with no failure, without the
  failing posts.
\<close>

theorem per_item_failure_is_dropped:
  "map doc (map_non_null (withUserData conv u) es)
     = filter conv (map the (filter (\<lambda>e. e \<noteq> None) es))
   \<and> map doc (map_non_null (withOptionalUserData conv reqUser) es)
     = filter conv (map the (filter (\<lambda>e. e \<noteq> None) es))
   \<and> (findById users userId = Some usr \<and> following_posts usr store page limit = Inr ps \<longrightarrow>
        (\<exists>res. following_feed conv users store userId page limit = Inr res
               \<and> map doc (r_posts res) = filter conv ps))
   \<and> (findById users userId = Some usr \<longrightarrow>
        (\<exists>res. for_you_feed conv shuffle users store userId now page limit = Inr res
               \<and> map doc (r_posts res)
                   = filter conv (shuffledPosts shuffle
                       (uniquePosts (algorithmPosts users usr store now limit)) page limit)))
   \<and> (discover_posts store now page limit = Inr ps' \<longrightarrow>
        (\<exists>res. discover_feed conv store reqUser now page limit = Inr res
               \<and> map doc (r_posts res) = filter conv ps'))
   \<and> returned_posts (following_feed conv users store userId page limit)
       = filter (conv \<circ> doc)
           (returned_posts (following_feed (\<lambda>p. True) users store userId page limit))
   \<and> returned_posts (for_you_feed conv shuffle users store userId now page limit)
       = filter (conv \<circ> doc)
           (returned_posts (for_you_feed (\<lambda>p. True) shuffle users store userId now page limit))
   \<and> returned_posts (discover_feed conv store reqUser now page limit)
       = filter (conv \<circ> doc)
           (returned_posts (discover_feed (\<lambda>p. True) store reqUser now page limit))"
proof -
  have a: "\<exists>res. following_feed conv users store userId page limit = Inr res
               \<and> map doc (r_posts res) = filter conv ps"
    if "findById users userId = Some usr" "following_posts usr store page limit = Inr ps"
    using following_feed_Inr [OF that, of conv] by blast
  have b: "\<exists>res. for_you_feed conv shuffle users store userId now page limit = Inr res
               \<and> map doc (r_posts res)
                   = filter conv (shuffledPosts shuffle
                       (uniquePosts (algorithmPosts users usr store now limit)) page limit)"
    if "findById users userId = Some usr"
    using for_you_feed_Inr [OF that, of conv shuffle store now page limit] by blast
  have c: "\<exists>res. discover_feed conv store reqUser now page limit = Inr res
               \<and> map doc (r_posts res) = filter conv ps'"
    if "discover_posts store now page limit = Inr ps'"
    using discover_feed_Inr [OF that, of conv reqUser] by blast
  from docs_withUserData [of conv u es] docs_withOptionalUserData [of conv reqUser es] a b c
       following_feed_drop [of conv users store userId page limit]
       for_you_feed_drop [of conv shuffle users store userId now page limit]
       discover_feed_drop [of conv store reqUser now page limit]
  show ?thesis
    by blast
qed

theorem per_item_failure_is_dropped_witness:
  "findById ex_users 1 = Some (hd ex_users)
   \<and> following_posts (hd ex_users) ex_store 1 10
       = Inr [ex_store ! 6, ex_store ! 0, ex_store ! 1]
   \<and> pid (ex_store ! 0) = 1
   \<and> (\<exists>res. following_feed (\<lambda>p. pid p \<noteq> 1) ex_users ex_store 1 1 10 = Inr res
             \<and> map doc (r_posts res) = [ex_store ! 6, ex_store ! 1])"
proof -
  have q: "following_posts (hd ex_users) ex_store 1 10
           = Inr [ex_store ! 6, ex_store ! 0, ex_store ! 1]"
    by (simp add: store_defs ex_defs route_defs)
  have i: "pid (ex_store ! 0) = 1"
    by (simp add: ex_store_def)
  have f: "filter (\<lambda>p. pid p \<noteq> 1) [ex_store ! 6, ex_store ! 0, ex_store ! 1]
           = [ex_store ! 6, ex_store ! 1]"
    by (simp add: ex_store_def)
  have r: "\<exists>res. following_feed (\<lambda>p. pid p \<noteq> 1) ex_users ex_store 1 1 10 = Inr res
             \<and> map doc (r_posts res) = [ex_store ! 6, ex_store ! 1]"
    using per_item_failure_is_dropped
      [of "\<lambda>p. pid p \<noteq> 1" 1 "[]" None ex_users 1 "hd ex_users" ex_store 1 10
          "[ex_store ! 6, ex_store ! 0, ex_store ! 1]" rev ex_now "[]"]
      ex_viewer_1 q
    unfolding f by (elim conjE) blast
  from ex_viewer_1 q i r show ?thesis
    by (intro conjI)
qed

section \<open>Discover feed: inclusion\<close>

lemma in_some_window:
  assumes "x \<in> set xs" "0 < limit"
  shows "\<exists>page\<ge>1. x \<in> set (window page limit xs)"
proof -
  from assms(1) obtain i where i: "i < length xs" "xs ! i = x"
    by (auto simp: in_set_conv_nth)
  define L where "L = nat limit"
  define k where "k = i div L"
  have L: "0 < L"
    using assms(2) by (simp add: L_def)
  let ?page = "int k + 1"
  have page: "1 \<le> ?page"
    by simp
  have off: "nat ((?page - 1) * limit) = k * L"
    using assms(2) by (simp add: L_def nat_mult_distrib)
  have w: "window ?page limit xs = take L (drop (k * L) xs)"
    using window_take_drop [OF page assms(2), of xs] by (simp only: off L_def)
  have le: "k * L \<le> i"
    by (simp add: k_def)
  have m: "i - k * L < L"
    using L by (simp add: k_def minus_div_mult_eq_mod)
  have len: "i - k * L < length (drop (k * L) xs)"
    using i(1) le by simp
  have "take L (drop (k * L) xs) ! (i - k * L) = x"
    using m len le i by simp
  moreover have "i - k * L < length (take L (drop (k * L) xs))"
    using m len by simp
  ultimately have "x \<in> set (take L (drop (k * L) xs))"
    by (metis nth_mem)
  with w page show ?thesis
    by (intro exI [of _ ?page]) simp
qed

lemma discover_includes_iff:
  "discover_includes now p
   \<longleftrightarrow> isActive p \<and> (interactions p \<ge> 1 \<or> createdAt p \<ge> now - 7 * day_ms)"
  unfolding discover_includes_def by (simp add: algebra_simps)

lemma discover_query_iff:
  "p \<in> set (discover_query store now) \<longleftrightarrow> p \<in> set store \<and> discover_includes now p"
  by (auto simp: set_discover_query discover_includes_iff)

lemma discover_returned_included:
  "ob \<in> set (returned_posts (discover_feed conv store reqUser now page limit))
   \<Longrightarrow> doc ob \<in> set store \<and> discover_includes now (doc ob)"
  using docs_discover_feed [of conv store reqUser now page limit]
  by (auto simp: discover_query_iff)

lemma discover_included_returned:
  assumes "p \<in> set store" "discover_includes now p" "conv p" "0 < limit"
  shows "\<exists>page\<ge>1. p \<in> doc ` set (returned_posts
                                      (discover_feed conv store reqUser now page limit))"
proof -
  from assms(1,2) have "p \<in> set (discover_query store now)"
    by (simp add: discover_query_iff)
  from in_some_window [OF this assms(4)]
  obtain page where page: "1 \<le> page" "p \<in> set (window page limit (discover_query store now))"
    by (elim exE conjE)
  have "map doc (returned_posts (discover_feed conv store reqUser now page limit))
        = filter conv (window page limit (discover_query store now))"
    by (simp add: docs_discover_feed_eq discover_posts_window [OF page(1) assms(4)])
  then have "doc ` set (returned_posts (discover_feed conv store reqUser now page limit))
             = set (filter conv (window page limit (discover_query store now)))"
    by (metis set_map)
  with page assms(3)
  have "1 \<le> page \<and> p \<in> doc ` set (returned_posts
                                      (discover_feed conv store reqUser now page limit))"
    by simp
  then show ?thesis ..
qed

text \<open>
  Claim C5. Every post the discover feed returns is active and has at least one
  interaction or was created within the last 7 days; a stored post that converts is
  returned on some page exactly when it satisfies that filter. A post without likes and
  comments created 8 days ago is not returned; an active one created 1 day ago satisfies
  the filter.
\<close>

theorem discover_inclusion:
  "(\<forall>ob \<in> set (returned_posts (discover_feed conv store reqUser now page limit)).
      discover_includes now (doc ob))
   \<and> (p \<in> set (discover_query store now) \<longleftrightarrow> p \<in> set store \<and> discover_includes now p)
   \<and> (p \<in> set store \<and> conv p \<and> 0 < limit \<longrightarrow>
        (discover_includes now p \<longleftrightarrow>
           (\<exists>page\<ge>1. p \<in> doc ` set (returned_posts
                                       (discover_feed conv store reqUser now page limit)))))
   \<and> (discover_includes now p \<longleftrightarrow>
        isActive p \<and> (int (length (likes p)) + int (length (comments p)) \<ge> 1
                      \<or> createdAt p \<ge> now - 7 * 24 * 60 * 60 * 1000))
   \<and> (likes q = [] \<and> comments q = [] \<and> createdAt q = now - 8 * day_ms \<longrightarrow>
        \<not> discover_includes now q
        \<and> q \<notin> doc ` set (returned_posts (discover_feed conv store reqUser now page limit)))
   \<and> (isActive r \<and> likes r = [] \<and> comments r = [] \<and> createdAt r = now - 1 * day_ms \<longrightarrow>
        discover_includes now r)"
proof -
  have a: "\<forall>ob \<in> set (returned_posts (discover_feed conv store reqUser now page limit)).
      discover_includes now (doc ob)"
    by (simp add: discover_returned_included)
  have b: "p \<in> set store \<and> conv p \<and> 0 < limit \<longrightarrow>
        (discover_includes now p \<longleftrightarrow>
           (\<exists>page\<ge>1. p \<in> doc ` set (returned_posts
                                       (discover_feed conv store reqUser now page limit))))"
  proof (intro impI iffI; elim conjE)
    assume "p \<in> set store" "conv p" "0 < limit" "discover_includes now p"
    then show "\<exists>page\<ge>1. p \<in> doc ` set (returned_posts
                                       (discover_feed conv store reqUser now page limit))"
      by (intro discover_included_returned)
  next
    assume "\<exists>page\<ge>1. p \<in> doc ` set (returned_posts
                                       (discover_feed conv store reqUser now page limit))"
    then obtain pg ob where
      "ob \<in> set (returned_posts (discover_feed conv store reqUser now pg limit))" "p = doc ob"
      by (elim exE conjE imageE)
    then show "discover_includes now p"
      by (simp add: discover_returned_included)
  qed
  have c: "discover_includes now p \<longleftrightarrow>
        isActive p \<and> (int (length (likes p)) + int (length (comments p)) \<ge> 1
                      \<or> createdAt p \<ge> now - 7 * 24 * 60 * 60 * 1000)"
    by (simp add: discover_includes_iff interactions_def day_ms_def)
  have d: "likes q = [] \<and> comments q = [] \<and> createdAt q = now - 8 * day_ms \<longrightarrow>
        \<not> discover_includes now q
        \<and> q \<notin> doc ` set (returned_posts (discover_feed conv store reqUser now page limit))"
  proof (intro impI; elim conjE)
    assume h: "likes q = []" "comments q = []" "createdAt q = now - 8 * day_ms"
    then have n: "\<not> discover_includes now q"
      by (simp add: discover_includes_iff interactions_def day_ms_def)
    have "q \<notin> doc ` set (returned_posts (discover_feed conv store reqUser now page limit))"
    proof
      assume "q \<in> doc ` set (returned_posts (discover_feed conv store reqUser now page limit))"
      then obtain ob where
        "ob \<in> set (returned_posts (discover_feed conv store reqUser now page limit))" "q = doc ob"
        by (elim imageE)
      then have "discover_includes now q"
        by (simp add: discover_returned_included)
      with n show False ..
    qed
    with n show "\<not> discover_includes now q
        \<and> q \<notin> doc ` set (returned_posts (discover_feed conv store reqUser now page limit))"
      by (intro conjI)
  qed
  have e: "isActive r \<and> likes r = [] \<and> comments r = [] \<and> createdAt r = now - 1 * day_ms \<longrightarrow>
        discover_includes now r"
    by (simp add: discover_includes_iff day_ms_def)
  from a discover_query_iff [of p store now] b c d e show ?thesis
    by (intro conjI)
qed

theorem discover_inclusion_witness:
  "map (pid \<circ> doc) (returned_posts (discover_feed (\<lambda>p. True) ex_store None ex_now 1 10))
     = [1, 6, 4, 2]
   \<and> list_all (\<lambda>ob. discover_includes ex_now (doc ob))
         (returned_posts (discover_feed (\<lambda>p. True) ex_store None ex_now 1 10))
   \<and> ex_store ! 5 \<in> set ex_store \<and> (0::int) < 10
   \<and> isActive (ex_store ! 5) \<and> likes (ex_store ! 5) = [] \<and> comments (ex_store ! 5) = []
   \<and> createdAt (ex_store ! 5) = ex_now - 1 * day_ms
   \<and> discover_includes ex_now (ex_store ! 5)
   \<and> (\<exists>page\<ge>1. ex_store ! 5 \<in> doc ` set (returned_posts
                          (discover_feed (\<lambda>p. True) ex_store None ex_now page 10)))
   \<and> ex_store ! 7 \<in> set ex_store \<and> isActive (ex_store ! 7)
   \<and> likes (ex_store ! 7) = [] \<and> comments (ex_store ! 7) = []
   \<and> createdAt (ex_store ! 7) = ex_now - 8 * day_ms
   \<and> \<not> discover_includes ex_now (ex_store ! 7)
   \<and> ex_store ! 7 \<notin> doc ` set (returned_posts
                          (discover_feed (\<lambda>p. True) ex_store None ex_now 1 10))"
proof -
  note t = discover_inclusion
      [of "\<lambda>p. True" ex_store None ex_now 1 10 "ex_store ! 5" "ex_store ! 7" "ex_store ! 5"]
  have m5: "ex_store ! 5 \<in> set ex_store" and m7: "ex_store ! 7 \<in> set ex_store"
    by (simp_all add: ex_store_def)
  have l: "(0::int) < 10"
    by simp
  have p5: "isActive (ex_store ! 5)" "likes (ex_store ! 5) = []" "comments (ex_store ! 5) = []"
      "createdAt (ex_store ! 5) = ex_now - 1 * day_ms"
    by (simp_all add: ex_store_def)
  have p7: "isActive (ex_store ! 7)" "likes (ex_store ! 7) = []" "comments (ex_store ! 7) = []"
      "createdAt (ex_store ! 7) = ex_now - 8 * day_ms"
    by (simp_all add: ex_store_def)
  have a: "list_all (\<lambda>ob. discover_includes ex_now (doc ob))
             (returned_posts (discover_feed (\<lambda>p. True) ex_store None ex_now 1 10))"
    using t unfolding list_all_iff by (elim conjE)
  have i5: "discover_includes ex_now (ex_store ! 5)"
    using t p5 by (elim conjE) simp
  have r5: "\<exists>page\<ge>1. ex_store ! 5 \<in> doc ` set (returned_posts
                          (discover_feed (\<lambda>p. True) ex_store None ex_now page 10))"
    using t m5 l i5 by (elim conjE) simp
  have x7: "\<not> discover_includes ex_now (ex_store ! 7)
            \<and> ex_store ! 7 \<notin> doc ` set (returned_posts
                          (discover_feed (\<lambda>p. True) ex_store None ex_now 1 10))"
    using t p7 by (elim conjE) simp
  from ex_discover a m5 l p5 i5 r5 m7 p7 x7 [THEN conjunct1] x7 [THEN conjunct2]
  show ?thesis
    by (intro conjI)
qed

end
